theory Spec2Isabelle
  imports Main "HOL-Library.List_Lexorder" "HOL-Library.Char_ord" "HOL-Library.Multiset"
begin

section \<open>The code generator of model/modeldecoder/generator/code.go\<close>

text \<open>
  The generator walks a graph of struct types and appends, for every struct type it
  reaches from the root types, the text of three methods (\<open>IsSet\<close>, \<open>Reset\<close>,
  \<open>validate\<close>) to a byte buffer. The embedding follows \<open>code.go\<close> function by
  function. The receiver \<open>g *CodeGenerator\<close> is mutated in the source; here every
  method takes the generator and returns the updated generator together with the
  returned error (\<open>None\<close> for Go's \<open>nil\<close>).
\<close>

subsection \<open>Data\<close>

text \<open>
  What the generator observes of a \<open>go/types\<close> type: the result of \<open>String()\<close> and
  the dynamic type of \<open>Underlying()\<close>. For a slice or a map the only thing read is
  \<open>Elem()\<close>, and of that only \<open>String()\<close> (in \<open>customStruct\<close>), so the element is
  kept as that string. Any other underlying type is kept as its \<open>%T\<close> rendering
  (for instance \<open>*types.Basic\<close>), which is all the source prints of it.
\<close>

datatype underlying = TSlice string | TMap string | TStruct | TOther string

text \<open>
  \<open>structField\<close> embeds a \<open>*types.Var\<close> and carries the struct tag. \<open>Name\<close>,
  \<open>Exported\<close> and the type are the observations of the embedded variable; \<open>tag\<close>
  is \<open>reflect.StructTag.Lookup\<close> as a partial map from tag names to values.
\<close>

record structField =
  Name :: string
  Exported :: bool
  TypeString :: string
  Underlying :: underlying
  tag :: "string \<rightharpoonup> string"

record structType =
  name :: string
  fields' :: "structField list"

text \<open>
  \<open>structTypes\<close> is a Go map that is only ever looked up: an association list read
  with \<open>map_of\<close>. \<open>patternVariables\<close> is a Go map that is iterated: the association
  list gives its entries in the order in which \<open>range\<close> happens to enumerate them.
\<close>

record Parsed =
  structTypes :: "(string \<times> structType) list"
  patternVariables :: "(string \<times> string) list"
  pkgName :: string

record CodeGenerator =
  buf :: string
  parsed :: Parsed
  rootObjs :: "structType list"
  processedTypes :: "string set"

text \<open>
  Errors are built by \<open>fmt.Errorf\<close> and \<open>errors.Wrap\<close> only; \<open>Error\<close> is the
  message, where \<open>Wrap\<close> puts its message and a colon in front of the cause's.
\<close>

datatype error = Errorf string | Wrap error string

fun Error :: "error \<Rightarrow> string" where
  "Error (Errorf msg) = msg"
| "Error (Wrap err msg) = msg @ '': '' @ Error err"

text \<open>
  The rule functions of the validation generator and the names of the nullable types
  are declared in other files of the package. They are parameters here. A rule function
  receives the buffer as an \<open>io.Writer\<close>, so all it can do to it is append: it is
  modelled by the text it writes and the error it returns. \<open>ToLower\<close> is
  \<open>strings.ToLower\<close> of the standard library, which maps every Unicode letter to
  its lower case by the case tables of the \<open>unicode\<close> package: it is a parameter
  too, and nothing is assumed of it.
\<close>

type_synonym validationGenerator =
  "structField list \<Rightarrow> structField \<Rightarrow> bool \<Rightarrow> string \<times> error option"

record externals =
  nullableTypeString :: string
  nullableTypeInt :: string
  nullableTypeFloat64 :: string
  nullableTypeInterface :: string
  generateNullableStringValidation :: validationGenerator
  generateNullableIntValidation :: validationGenerator
  generateNullableInterfaceValidation :: validationGenerator
  generateSliceValidation :: validationGenerator
  generateMapValidation :: validationGenerator
  generateStructValidation :: validationGenerator
  ToLower :: "string \<Rightarrow> string"

subsection \<open>Strings and the buffer\<close>

definition nl :: char where
  "nl = CHR 0x0A"

definition tab :: char where
  "tab = CHR 0x09"

definition anonymousField :: string where
  "anonymousField = ''_''"

text \<open>\<open>fmt.Fprint\<close> and \<open>fmt.Fprintf\<close> on \<open>&g.buf\<close>: the formatted text is appended.\<close>

definition Fprint :: "CodeGenerator \<Rightarrow> string \<Rightarrow> CodeGenerator" where
  "Fprint g s = g\<lparr>buf := buf g @ s\<rparr>"

text \<open>\<open>strings.Split(s, ",")\<close>: the pieces between the commas, at least one piece.\<close>

fun Split :: "string \<Rightarrow> string list" where
  "Split [] = [[]]"
| "Split (c # cs) =
     (if c = CHR '','' then [] # Split cs
      else (case Split cs of p # ps \<Rightarrow> (c # p) # ps | [] \<Rightarrow> [[c]]))"

subsection \<open>Names\<close>

text \<open>
  \<open>parseTag\<close> returns an empty slice when the tag is absent and \<open>nil\<close> when it is
  \<open>-\<close>. Both have length 0, which is all \<open>jsonName\<close> reads, so both are \<open>[]\<close>.
\<close>

definition parseTag :: "(string \<rightharpoonup> string) \<Rightarrow> string \<Rightarrow> string list" where
  "parseTag structTag tagName =
     (case structTag tagName of
        None \<Rightarrow> []
      | Some t \<Rightarrow> if t = ''-'' then [] else Split t)"

definition jsonName :: "externals \<Rightarrow> structField \<Rightarrow> string" where
  "jsonName X f =
     (let parts = parseTag (tag f) ''json''
      in if length parts = 0 then ToLower X (Name f) else hd parts)"

definition flattenName :: "externals \<Rightarrow> string \<Rightarrow> structField \<Rightarrow> string" where
  "flattenName X key f = (if key \<noteq> [] then key @ ''.'' else key) @ jsonName X f"

definition customStruct :: "CodeGenerator \<Rightarrow> string \<Rightarrow> structType option" where
  "customStruct g typ = map_of (structTypes (parsed g)) typ"

subsection \<open>IsSet\<close>

text \<open>The loop of \<open>generateIsSet\<close>; \<open>key\<close> is the key with its dot, \<open>prefix\<close> the loop variable.\<close>

fun isSetFields ::
  "externals \<Rightarrow> CodeGenerator \<Rightarrow> string \<Rightarrow> string \<Rightarrow> structField list \<Rightarrow> CodeGenerator \<times> error option" where
  "isSetFields X g key prefix [] = (g, None)"
| "isSetFields X g key prefix (f # fs) =
     (if \<not> Exported f then isSetFields X g key prefix fs
      else (case Underlying f of
          TSlice e \<Rightarrow>
            isSetFields X (Fprint g (prefix @ '' len(val.'' @ Name f @ '') > 0'')) key '' ||'' fs
        | TMap e \<Rightarrow>
            isSetFields X (Fprint g (prefix @ '' len(val.'' @ Name f @ '') > 0'')) key '' ||'' fs
        | TStruct \<Rightarrow>
            isSetFields X (Fprint g (prefix @ '' val.'' @ Name f @ ''.IsSet()'')) key '' ||'' fs
        | TOther t \<Rightarrow>
            (g, Some (Errorf (''unhandled type '' @ t @ '' for IsSet() for '' @ [CHR 0x27]
                @ key @ jsonName X f @ [CHR 0x27])))))"

definition generateIsSet ::
  "externals \<Rightarrow> CodeGenerator \<Rightarrow> structType \<Rightarrow> string \<Rightarrow> CodeGenerator \<times> error option" where
  "generateIsSet X g structTyp key =
     (if length (fields' structTyp) = 0
      then (g, Some (Errorf (''unhandled struct '' @ name structTyp
                @ '' (does not have any exported fields)'')))
      else
        (let g1 = Fprint g ([nl] @ ''func (val *'' @ name structTyp @ '') IsSet() bool {''
                    @ [nl, tab] @ ''return'');
             key1 = (if key \<noteq> [] then key @ ''.'' else key)
         in (case isSetFields X g1 key1 [] (fields' structTyp) of
               (g2, Some err) \<Rightarrow> (g2, Some err)
             | (g2, None) \<Rightarrow> (Fprint g2 ([nl] @ ''}'' @ [nl]), None))))"

subsection \<open>Reset\<close>

text \<open>The loop of \<open>generateReset\<close>; \<open>key\<close> is the key with its dot.\<close>

fun resetFields ::
  "externals \<Rightarrow> CodeGenerator \<Rightarrow> string \<Rightarrow> structField list \<Rightarrow> CodeGenerator \<times> error option" where
  "resetFields X g key [] = (g, None)"
| "resetFields X g key (f # fs) =
     (if \<not> Exported f then resetFields X g key fs
      else (case Underlying f of
          TSlice e \<Rightarrow>
            (let g1 = (if customStruct g e \<noteq> None
                       then Fprint g (''for i := range val.'' @ Name f @ ''{'' @ [nl, tab]
                              @ ''val.'' @ Name f @ ''[i].Reset()'' @ [nl] @ ''}'' @ [nl])
                       else g)
             in resetFields
                  X (Fprint g1 (''val.'' @ Name f @ '' = val.'' @ Name f @ ''[:0]'' @ [nl]))
                  key fs)
        | TMap e \<Rightarrow>
            resetFields
              X (Fprint g (''for k := range val.'' @ Name f @ '' {'' @ [nl, tab]
                 @ ''delete(val.'' @ Name f @ '', k)'' @ [nl] @ ''}'' @ [nl]))
              key fs
        | TStruct \<Rightarrow>
            resetFields X (Fprint g (''val.'' @ Name f @ ''.Reset()'' @ [nl])) key fs
        | TOther t \<Rightarrow>
            (g, Some (Errorf (''unhandled type '' @ t @ '' for Reset() for '' @ [CHR 0x27]
                @ key @ jsonName X f @ [CHR 0x27])))))"

definition generateReset ::
  "externals \<Rightarrow> CodeGenerator \<Rightarrow> structType \<Rightarrow> string \<Rightarrow> CodeGenerator \<times> error option" where
  "generateReset X g structTyp key =
     (let g1 = Fprint g ([nl] @ ''func (val *'' @ name structTyp @ '') Reset() {'' @ [nl]);
          key1 = (if key \<noteq> [] then key @ ''.'' else key)
      in (case resetFields X g1 key1 (fields' structTyp) of
            (g2, Some err) \<Rightarrow> (g2, Some err)
          | (g2, None) \<Rightarrow> (Fprint g2 (''}'' @ [nl]), None)))"

subsection \<open>Validation\<close>

text \<open>
  The two nested switches of the loop body of \<open>generateValidation\<close>: the rule
  function and the \<open>custom\<close> flag chosen for a field, or the error of the innermost
  \<open>default\<close> branch.
\<close>

definition selectValidation ::
  "externals \<Rightarrow> CodeGenerator \<Rightarrow> structField \<Rightarrow> error + (validationGenerator \<times> bool)" where
  "selectValidation X g f =
     (if TypeString f = nullableTypeString X
        then Inr (generateNullableStringValidation X, False)
      else if TypeString f = nullableTypeInt X
        then Inr (generateNullableIntValidation X, False)
      else if TypeString f = nullableTypeFloat64 X
        then Inr (generateNullableIntValidation X, False)
      else if TypeString f = nullableTypeInterface X
        then Inr (generateNullableInterfaceValidation X, False)
      else (case Underlying f of
          TSlice e \<Rightarrow> Inr (generateSliceValidation X, customStruct g e \<noteq> None)
        | TMap e \<Rightarrow> Inr (generateMapValidation X, customStruct g e \<noteq> None)
        | TStruct \<Rightarrow> Inr (generateStructValidation X, customStruct g (TypeString f) \<noteq> None)
        | TOther t \<Rightarrow> Inl (Errorf (''unhandled type '' @ t))))"

text \<open>
  The loop of \<open>generateValidation\<close> over \<open>structTyp.fields\<close>; \<open>all\<close> is the whole
  field list, which every rule function receives.
\<close>

fun validationFields ::
  "externals \<Rightarrow> CodeGenerator \<Rightarrow> string \<Rightarrow> structField list \<Rightarrow> structField list
     \<Rightarrow> CodeGenerator \<times> error option" where
  "validationFields X g key all [] = (g, None)"
| "validationFields X g key all (f # fs) =
     (if \<not> Exported f \<and> Name f \<noteq> anonymousField then validationFields X g key all fs
      else (case selectValidation X g f of
          Inl err \<Rightarrow> (g, Some (Wrap err (flattenName X key f)))
        | Inr (validation, custom) \<Rightarrow>
            (case validation all f custom of
               (out, Some err) \<Rightarrow> (Fprint g out, Some (Wrap err (flattenName X key f)))
             | (out, None) \<Rightarrow> validationFields X (Fprint g out) key all fs)))"

definition isRoot :: "CodeGenerator \<Rightarrow> structType \<Rightarrow> bool" where
  "isRoot g structTyp = list_ex (\<lambda>rootObj. name structTyp = name rootObj) (rootObjs g)"

definition generateValidation ::
  "externals \<Rightarrow> CodeGenerator \<Rightarrow> structType \<Rightarrow> string \<Rightarrow> CodeGenerator \<times> error option" where
  "generateValidation X g structTyp key =
     (let g1 = Fprint g ([nl] @ ''func (val *'' @ name structTyp @ '') validate() error {''
                 @ [nl]);
          g2 = (if \<not> isRoot g structTyp
                then Fprint g1 (''if !val.IsSet() {'' @ [nl, tab] @ ''return nil'' @ [nl]
                       @ ''}'' @ [nl])
                else g1)
      in (case validationFields X g2 key (fields' structTyp) (fields' structTyp) of
            (g3, Some err) \<Rightarrow> (g3, Some err)
          | (g3, None) \<Rightarrow> (Fprint g3 (''return nil'' @ [nl] @ ''}'' @ [nl]), None)))"

subsection \<open>The traversal\<close>

text \<open>
  The type whose struct is looked up for a field in the loop of \<open>generate\<close>: the
  element type of a map or a slice, the field's own type otherwise.
\<close>

definition childTyp :: "structField \<Rightarrow> string" where
  "childTyp field =
     (case Underlying field of
        TMap e \<Rightarrow> e
      | TSlice e \<Rightarrow> e
      | _ \<Rightarrow> TypeString field)"

text \<open>
  \<open>generate\<close> and its loop over \<open>st.fields\<close> (\<open>generateFields\<close>, where \<open>key\<close> is
  the key with its dot). The generator that a recursive call returns is the one the
  following iterations run on.
\<close>

function generate ::
  "externals \<Rightarrow> CodeGenerator \<Rightarrow> structType \<Rightarrow> string \<Rightarrow> CodeGenerator \<times> error option"
and generateFields ::
  "externals \<Rightarrow> CodeGenerator \<Rightarrow> string \<Rightarrow> structField list \<Rightarrow> CodeGenerator \<times> error option"
where
  "generate X g st key =
     (if name st \<in> processedTypes g then (g, None)
      else
        (case generateIsSet X (g\<lparr>processedTypes := insert (name st) (processedTypes g)\<rparr>) st key of
           (g1, Some err) \<Rightarrow> (g1, Some err)
         | (g1, None) \<Rightarrow>
        (case generateReset X g1 st key of
           (g2, Some err) \<Rightarrow> (g2, Some err)
         | (g2, None) \<Rightarrow>
        (case generateValidation X g2 st key of
           (g3, Some err) \<Rightarrow> (g3, Some err)
         | (g3, None) \<Rightarrow>
             generateFields X g3 (if key \<noteq> [] then key @ ''.'' else key) (fields' st)))))"
| "generateFields X g key [] = (g, None)"
| "generateFields X g key (field # fs) =
     (case customStruct g (childTyp field) of
        None \<Rightarrow> generateFields X g key fs
      | Some child \<Rightarrow>
          (case generate X g child (key @ jsonName X field) of
             (g1, Some err) \<Rightarrow> (g1, Some err)
           | (g1, None) \<Rightarrow> generateFields X g1 key fs))"
  by pat_completeness auto

subsection \<open>Termination of the traversal\<close>

text \<open>
  The three generators leave everything but the buffer alone, and only append to the
  buffer (\<open>same_frame\<close>). A call of \<open>generate\<close> moreover only adds names to
  \<open>processedTypes\<close> (\<open>grows\<close>). Every struct that \<open>customStruct\<close> finds has its name
  among the finitely many names of the graph, so the number of names of the graph that
  are not yet processed bounds the depth of the recursion.
\<close>

definition same_frame :: "CodeGenerator \<Rightarrow> CodeGenerator \<Rightarrow> bool" where
  "same_frame g g' \<longleftrightarrow> parsed g' = parsed g \<and> rootObjs g' = rootObjs g
     \<and> processedTypes g' = processedTypes g \<and> (\<exists>out. buf g' = buf g @ out)"

lemma same_frame_refl: "same_frame g g" by (simp add: same_frame_def)
lemma same_frame_trans: "same_frame a b \<Longrightarrow> same_frame b c \<Longrightarrow> same_frame a c"
  by (auto simp: same_frame_def)
lemma same_frame_Fprint: "same_frame g (Fprint g s)" by (simp add: same_frame_def Fprint_def)
lemma same_frame_Fprint2: "same_frame a b \<Longrightarrow> same_frame a (Fprint b s)"
  by (auto simp: same_frame_def Fprint_def)

lemma isSetFields_frame: "same_frame g (fst (isSetFields X g key p fs))"
proof (induction fs arbitrary: g p)
  case Nil show ?case by (simp add: same_frame_refl)
next
  case (Cons f fs)
  show ?case
    by (cases "Underlying f")
       (auto simp: same_frame_refl intro: same_frame_trans[OF same_frame_Fprint Cons.IH] Cons.IH)
qed

lemma finish_frame:
  "same_frame g (fst r) \<Longrightarrow>
   same_frame g (fst (case r of (g2, Some err) \<Rightarrow> (g2, Some err) | (g2, None) \<Rightarrow> (Fprint g2 s, None)))"
  by (auto split: prod.splits option.splits intro: same_frame_Fprint2)

lemma generateIsSet_frame: "same_frame g (fst (generateIsSet X g st key))"
  unfolding generateIsSet_def Let_def
  by (auto simp: same_frame_refl
      intro!: finish_frame same_frame_trans[OF same_frame_Fprint isSetFields_frame])

lemma resetFields_frame: "same_frame g (fst (resetFields X g key fs))"
proof (induction fs arbitrary: g)
  case Nil show ?case by (simp add: same_frame_refl)
next
  case (Cons f fs)
  show ?case
    by (cases "Underlying f")
       (auto simp: same_frame_refl Let_def intro: same_frame_trans[OF same_frame_Fprint Cons.IH] 
            same_frame_trans[OF same_frame_Fprint2[OF same_frame_Fprint] Cons.IH] Cons.IH)
qed

lemma generateReset_frame: "same_frame g (fst (generateReset X g st key))"
  unfolding generateReset_def Let_def
  by (intro finish_frame same_frame_trans[OF same_frame_Fprint resetFields_frame])

lemma validationFields_frame: "same_frame g (fst (validationFields X g key all fs))"
proof (induction fs arbitrary: g)
  case Nil show ?case by (simp add: same_frame_refl)
next
  case (Cons f fs)
  show ?case
    by (auto simp: same_frame_refl same_frame_Fprint split: sum.splits prod.splits option.splits
          intro: Cons.IH same_frame_trans[OF same_frame_Fprint Cons.IH])
qed

lemma generateValidation_frame: "same_frame g (fst (generateValidation X g st key))"
  unfolding generateValidation_def Let_def
  by (auto simp del: validationFields.simps
      intro!: finish_frame same_frame_trans[OF same_frame_Fprint validationFields_frame]
        same_frame_trans[OF same_frame_Fprint2[OF same_frame_Fprint] validationFields_frame])

definition grows :: "CodeGenerator \<Rightarrow> CodeGenerator \<Rightarrow> bool" where
  "grows g g' \<longleftrightarrow> parsed g' = parsed g \<and> rootObjs g' = rootObjs g
     \<and> processedTypes g \<subseteq> processedTypes g' \<and> (\<exists>out. buf g' = buf g @ out)"

lemma grows_refl: "grows g g" by (simp add: grows_def)
lemma grows_trans: "grows a b \<Longrightarrow> grows b c \<Longrightarrow> grows a c"
  by (auto simp: grows_def)
lemma same_frame_grows: "same_frame a b \<Longrightarrow> grows a b"
  by (auto simp: grows_def same_frame_def)
lemma grows_mark: "grows g (g\<lparr>processedTypes := insert n (processedTypes g)\<rparr>)"
  by (auto simp: grows_def)

lemma synth_frame:
  assumes "generateIsSet X (g\<lparr>processedTypes := insert n (processedTypes g)\<rparr>) st key = (g1, e1)"
    and "generateReset X g1 st key = (g2, e2)"
    and "generateValidation X g2 st key = (g3, e3)"
  shows "same_frame (g\<lparr>processedTypes := insert n (processedTypes g)\<rparr>) g1"
    and "same_frame (g\<lparr>processedTypes := insert n (processedTypes g)\<rparr>) g2"
    and "same_frame (g\<lparr>processedTypes := insert n (processedTypes g)\<rparr>) g3"
proof -
  let ?g0 = "g\<lparr>processedTypes := insert n (processedTypes g)\<rparr>"
  show a: "same_frame ?g0 g1" using generateIsSet_frame[where X=X and g="?g0" and st=st and key=key] assms(1) by simp
  have "same_frame g1 g2" using generateReset_frame[where X=X and g=g1 and st=st and key=key] assms(2) by simp
  with a show b: "same_frame ?g0 g2" by (rule same_frame_trans)
  have "same_frame g2 g3" using generateValidation_frame[where g=g2 and X=X and st=st and key=key] assms(3) by simp
  with b show "same_frame ?g0 g3" by (rule same_frame_trans)
qed

lemma generate_grows_dom:
  "generate_generateFields_dom (Inl (X, g, st, key)) \<Longrightarrow> grows g (fst (generate X g st key))"
  "generate_generateFields_dom (Inr (X, g, key, fs)) \<Longrightarrow> grows g (fst (generateFields X g key fs))"
proof (induction X g st key and X g key fs rule: generate_generateFields.pinduct)
  case (1 X g st key)
  let ?g0 = "g\<lparr>processedTypes := insert (name st) (processedTypes g)\<rparr>"
  show ?case
  proof (cases "name st \<in> processedTypes g")
    case True
    then show ?thesis using "1.hyps" by (simp add: generate.psimps grows_refl)
  next
    case False
    obtain g1 e1 where r1: "generateIsSet X ?g0 st key = (g1, e1)" by (cases "generateIsSet X ?g0 st key")
    obtain g2 e2 where r2: "generateReset X g1 st key = (g2, e2)" by (cases "generateReset X g1 st key")
    obtain g3 e3 where r3: "generateValidation X g2 st key = (g3, e3)" by (cases "generateValidation X g2 st key")
    note fr = synth_frame[OF r1 r2 r3]
    have m: "grows g ?g0" by (rule grows_mark)
    show ?thesis
    proof (cases e1)
      case (Some a)
      then show ?thesis using False "1.hyps" r1 fr(1) m
        by (auto simp: generate.psimps intro: grows_trans same_frame_grows)
    next
      case None note n1 = this
      show ?thesis
      proof (cases e2)
        case (Some a)
        then show ?thesis using False "1.hyps" r1 r2 n1 fr(2) m
          by (auto simp: generate.psimps intro: grows_trans same_frame_grows)
      next
        case None note n2 = this
        show ?thesis
        proof (cases e3)
          case (Some a)
          then show ?thesis using False "1.hyps" r1 r2 r3 n1 n2 fr(3) m
            by (auto simp: generate.psimps intro: grows_trans same_frame_grows)
        next
          case None
          have "grows g3 (fst (generateFields X g3 (if key \<noteq> [] then key @ ''.'' else key) (fields' st)))"
            using "1.IH"[OF False r1[symmetric] _ r2[symmetric] _ r3[symmetric]] n1 n2 None by simp
          moreover have "grows g g3" using m fr(3) by (blast intro: grows_trans same_frame_grows)
          ultimately show ?thesis using False "1.hyps" r1 r2 r3 n1 n2 None
            by (auto simp: generate.psimps intro: grows_trans)
        qed
      qed
    qed
  qed
next
  case (2 X g key)
  then show ?case by (simp add: generateFields.psimps grows_refl)
next
  case (3 X g key field fs)
  show ?case
  proof (cases "customStruct g (childTyp field)")
    case None
    then show ?thesis using "3.hyps" "3.IH"(1) by (simp add: generateFields.psimps)
  next
    case (Some child)
    obtain g1 e1 where r: "generate X g child (key @ jsonName X field) = (g1, e1)"
      by (cases "generate X g child (key @ jsonName X field)")
    have a: "grows g g1" using "3.IH"(2)[OF Some] r by simp
    show ?thesis
    proof (cases e1)
      case None
      have "grows g1 (fst (generateFields X g1 key fs))"
        using "3.IH"(3)[OF Some r[symmetric]] None by simp
      with a show ?thesis using "3.hyps" Some r None
        by (auto simp: generateFields.psimps intro: grows_trans)
    next
      case (Some e)
      then show ?thesis using "3.hyps" \<open>customStruct g (childTyp field) = Some child\<close> r a
        by (simp add: generateFields.psimps)
    qed
  qed
qed


definition graphNames :: "CodeGenerator \<Rightarrow> string set" where
  "graphNames g = set (map (\<lambda>kv. name (snd kv)) (structTypes (parsed g)))"

fun generate_measure ::
  "(externals \<times> CodeGenerator \<times> structType \<times> string) + (externals \<times> CodeGenerator \<times> string \<times> structField list)
     \<Rightarrow> nat \<times> nat \<times> nat" where
  "generate_measure (Inl (X, g, st, key)) =
     (if name st \<in> processedTypes g then (0, 0, 0)
      else (card (graphNames g - insert (name st) (processedTypes g)), 1, 0))"
| "generate_measure (Inr (X, g, key, fs)) =
     (card (graphNames g - processedTypes g), 0, Suc (length fs))"

lemma customStruct_graphNames: "customStruct g t = Some child \<Longrightarrow> name child \<in> graphNames g"
  by (auto simp: customStruct_def graphNames_def dest!: map_of_SomeD intro!: image_eqI[where x="(t, child)"])

lemma finite_graphNames: "finite (graphNames g)" by (simp add: graphNames_def)

lemma card_unprocessed_mono:
  "grows g g' \<Longrightarrow> card (graphNames g' - processedTypes g') \<le> card (graphNames g - processedTypes g)"
  by (auto simp: grows_def graphNames_def intro!: card_mono)

lemma card_unprocessed_less:
  "n \<in> graphNames g \<Longrightarrow> n \<notin> processedTypes g \<Longrightarrow>
   card (graphNames g - insert n (processedTypes g)) < card (graphNames g - processedTypes g)"
  by (rule psubset_card_mono) (auto simp: finite_graphNames)

lemma generate_all_dom: "All generate_generateFields_dom"
proof (relation "inv_image (less_than <*lex*> less_than <*lex*> less_than) generate_measure")
  show "wf (inv_image (less_than <*lex*> less_than <*lex*> less_than) generate_measure)"
    by (intro wf_inv_image wf_lex_prod wf_less_than)
next
  fix X g st key g1 e1 g2 e2 g3 e3
  assume new: "name st \<notin> processedTypes g"
    and r1: "(g1, e1) = generateIsSet X (g\<lparr>processedTypes := insert (name st) (processedTypes g)\<rparr>) st key"
    and r2: "(g2, e2) = generateReset X g1 st key"
    and r3: "(g3, e3) = generateValidation X g2 st key"
  have "same_frame (g\<lparr>processedTypes := insert (name st) (processedTypes g)\<rparr>) g3"
    using synth_frame(3)[OF r1[symmetric] r2[symmetric] r3[symmetric]] .
  then have "graphNames g3 = graphNames g"
    and "processedTypes g3 = insert (name st) (processedTypes g)"
    by (auto simp: same_frame_def graphNames_def)
  then show "(Inr (X, g3, if key \<noteq> [] then key @ ''.'' else key, fields' st), Inl (X, g, st, key))
      \<in> inv_image (less_than <*lex*> less_than <*lex*> less_than) generate_measure"
    using new by simp
next
  fix X g key field fs
  show "(Inr (X, g, key, fs), Inr (X, g, key, field # fs))
      \<in> inv_image (less_than <*lex*> less_than <*lex*> less_than) generate_measure"
    by simp
next
  fix X g key field fs child
  assume "customStruct g (childTyp field) = Some child"
  then have "name child \<in> graphNames g" by (rule customStruct_graphNames)
  then show "(Inl (X, g, child, key @ jsonName X field), Inr (X, g, key, field # fs))
      \<in> inv_image (less_than <*lex*> less_than <*lex*> less_than) generate_measure"
    using card_unprocessed_less[of "name child" g] by auto
next
  fix X g key field fs child g1 e1
  assume r: "(g1, e1) = generate X g child (key @ jsonName X field)"
    and dom: "generate_generateFields_dom (Inl (X, g, child, key @ jsonName X field))"
  have "grows g g1" using generate_grows_dom(1)[OF dom] r[symmetric] by simp
  from card_unprocessed_mono[OF this]
  show "(Inr (X, g1, key, fs), Inr (X, g, key, field # fs))
      \<in> inv_image (less_than <*lex*> less_than <*lex*> less_than) generate_measure"
    by auto
qed

termination generate
  by (rule generate_all_dom)

declare generate.simps [simp del]

lemma generate_grows: "grows g (fst (generate X g st key))"
  using generate_grows_dom(1) generate_all_dom by blast

lemma generateFields_grows: "grows g (fst (generateFields X g key fs))"
  using generate_grows_dom(2) generate_all_dom by blast

subsection \<open>Construction and the whole run\<close>

text \<open>The loop of \<open>NewCodeGenerator\<close>: every root name is looked up, the first missing one fails.\<close>

fun lookupRoots :: "Parsed \<Rightarrow> string list \<Rightarrow> error + structType list" where
  "lookupRoots prs [] = Inr []"
| "lookupRoots prs (r # rs) =
     (case map_of (structTypes prs) r of
        None \<Rightarrow> Inl (Errorf (''object with root key '' @ r @ '' not found''))
      | Some rootStruct \<Rightarrow>
          (case lookupRoots prs rs of
             Inl err \<Rightarrow> Inl err
           | Inr objs \<Rightarrow> Inr (rootStruct # objs)))"

definition NewCodeGenerator :: "Parsed \<Rightarrow> string list \<Rightarrow> error + CodeGenerator" where
  "NewCodeGenerator prs rootTypes =
     (case lookupRoots prs rootTypes of
        Inl err \<Rightarrow> Inl err
      | Inr objs \<Rightarrow> Inr \<lparr>buf = [], parsed = prs, rootObjs = objs, processedTypes = {}\<rparr>)"

text \<open>
  \<open>sortKeys\<close> collects the keys in the order \<open>range\<close> enumerates the map and sorts
  them with \<open>sort.StringSlice\<close>, that is by \<open><\<close> on strings: bytewise, a proper prefix
  first.
\<close>

definition sortKeys :: "(string \<times> string) list \<Rightarrow> string list" where
  "sortKeys input = sort (map fst input)"

definition fileHeader :: "string \<Rightarrow> string" where
  \<open>fileHeader pkg =
     ''// Code generated by "modeldecoder/generator". DO NOT EDIT.'' @ [nl, nl]
     @ ''package '' @ pkg @ [nl, nl]
     @ ''import ('' @ [nl]
     @ [tab] @ ''"fmt"'' @ [nl]
     @ [tab] @ ''"encoding/json"'' @ [nl]
     @ [tab] @ ''"github.com/pkg/errors"'' @ [nl]
     @ [tab] @ ''"regexp"'' @ [nl]
     @ [tab] @ ''"unicode/utf8"'' @ [nl]
     @ '')'' @ [nl, nl]
     @ ''var ('' @ [nl]\<close>

definition patternDecl :: "string \<Rightarrow> string" where
  "patternDecl n = n @ ''Regexp = regexp.MustCompile('' @ n @ '')'' @ [nl]"

text \<open>The loop of \<open>Generate\<close> over the root structs.\<close>

fun generateRootObjs ::
  "externals \<Rightarrow> CodeGenerator \<Rightarrow> structType list \<Rightarrow> CodeGenerator \<times> error option" where
  "generateRootObjs X g [] = (g, None)"
| "generateRootObjs X g (rootObj # rest) =
     (case generate X g rootObj [] of
        (g1, Some err) \<Rightarrow> (g1, Some (Wrap err ''code generator''))
      | (g1, None) \<Rightarrow> generateRootObjs X g1 rest)"

text \<open>
  \<open>Generate\<close> returns \<open>g.buf\<close> and the error: the returned buffer is \<open>buf\<close> of the
  generator in the first component.
\<close>

definition Generate :: "externals \<Rightarrow> CodeGenerator \<Rightarrow> CodeGenerator \<times> error option" where
  "Generate X g =
     (let g1 = Fprint g (fileHeader (pkgName (parsed g)));
          g2 = foldl (\<lambda>acc n. Fprint acc (patternDecl n)) g1
                 (sortKeys (patternVariables (parsed g)));
          g3 = Fprint g2 ('')'' @ [nl])
      in generateRootObjs X g3 (rootObjs g))"

section \<open>Examples\<close>

text \<open>
  Fields and struct types on which the theorems below are run. The names follow the
  models of the package: a leading capital for an exported field, \<open>_\<close> for the blank
  field that only carries validation tags.
\<close>

definition dashField :: structField where
  "dashField = \<lparr>Name = ''Name'', Exported = True, TypeString = ''string'',
      Underlying = TOther ''*types.Basic'', tag = [''json'' \<mapsto> ''-'']\<rparr>"

definition tagField :: structField where
  "tagField = \<lparr>Name = ''URL'', Exported = True, TypeString = ''string'',
      Underlying = TOther ''*types.Basic'', tag = [''json'' \<mapsto> ''url_full,omitempty'']\<rparr>"

definition plainField :: structField where
  "plainField = \<lparr>Name = ''URL'', Exported = True, TypeString = ''string'',
      Underlying = TOther ''*types.Basic'', tag = Map.empty\<rparr>"

definition blankField :: structField where
  "blankField = \<lparr>Name = ''_'', Exported = False, TypeString = ''struct{}'',
      Underlying = TStruct, tag = Map.empty\<rparr>"

text \<open>
  Values for the parameters, to run the examples: short names for the nullable types,
  rule functions that write nothing and return no error, and for \<open>ToLower\<close> the
  function that lower-cases the letters \<open>A\<close> to \<open>Z\<close> and keeps every other byte.
  On a string of ASCII bytes that is what \<open>strings.ToLower\<close> returns, and all names
  in the examples are such strings.
\<close>

definition asciiLowerChar :: "char \<Rightarrow> char" where
  "asciiLowerChar c =
     (case map_of (zip ''ABCDEFGHIJKLMNOPQRSTUVWXYZ'' ''abcdefghijklmnopqrstuvwxyz'') c of
        Some l \<Rightarrow> l
      | None \<Rightarrow> c)"

definition asciiLower :: "string \<Rightarrow> string" where
  "asciiLower s = map asciiLowerChar s"

definition stubExternals :: externals where
  "stubExternals = \<lparr>
     nullableTypeString = ''nullable.String'',
     nullableTypeInt = ''nullable.Int'',
     nullableTypeFloat64 = ''nullable.Float64'',
     nullableTypeInterface = ''nullable.Interface'',
     generateNullableStringValidation = (\<lambda>fs f custom. ([], None)),
     generateNullableIntValidation = (\<lambda>fs f custom. ([], None)),
     generateNullableInterfaceValidation = (\<lambda>fs f custom. ([], None)),
     generateSliceValidation = (\<lambda>fs f custom. ([], None)),
     generateMapValidation = (\<lambda>fs f custom. ([], None)),
     generateStructValidation = (\<lambda>fs f custom. ([], None)),
     ToLower = asciiLower\<rparr>"

definition fName :: structField where
  "fName = \<lparr>Name = ''Name'', Exported = True, TypeString = ''nullable.String'',
      Underlying = TStruct, tag = Map.empty\<rparr>"

definition fTags :: structField where
  "fTags = \<lparr>Name = ''Tags'', Exported = True, TypeString = ''[]Tag'',
      Underlying = TSlice ''Tag'', tag = Map.empty\<rparr>"

definition fLabels :: structField where
  "fLabels = \<lparr>Name = ''Labels'', Exported = True, TypeString = ''map[string]Tag'',
      Underlying = TMap ''Tag'', tag = Map.empty\<rparr>"

definition fKey :: structField where
  "fKey = \<lparr>Name = ''Key'', Exported = True, TypeString = ''nullable.String'',
      Underlying = TStruct, tag = Map.empty\<rparr>"

definition fOwner :: structField where
  "fOwner = \<lparr>Name = ''Owner'', Exported = True, TypeString = ''Root'',
      Underlying = TStruct, tag = Map.empty\<rparr>"

definition fHandler :: structField where
  "fHandler = \<lparr>Name = ''Handler'', Exported = True, TypeString = ''func()'',
      Underlying = TOther ''*types.Signature'', tag = Map.empty\<rparr>"

text \<open>
  \<open>Root\<close> refers to \<open>Tag\<close> twice (a shared reference) and \<open>Tag\<close> refers back to
  \<open>Root\<close> (a cycle).
\<close>

definition tRoot :: structType where
  "tRoot = \<lparr>name = ''Root'', fields' = [fName, fTags, fLabels, blankField]\<rparr>"

definition tTag :: structType where
  "tTag = \<lparr>name = ''Tag'', fields' = [fKey, fOwner]\<rparr>"

definition tBad :: structType where
  "tBad = \<lparr>name = ''Bad'', fields' = [fName, fHandler]\<rparr>"

definition fId :: structField where
  "fId = \<lparr>Name = ''id'', Exported = False, TypeString = ''string'',
      Underlying = TOther ''*types.Basic'', tag = Map.empty\<rparr>"

definition tHidden :: structType where
  "tHidden = \<lparr>name = ''Hidden'', fields' = [fId, blankField]\<rparr>"

definition tEmpty :: structType where
  "tEmpty = \<lparr>name = ''Tag'', fields' = []\<rparr>"

definition exParsed :: Parsed where
  "exParsed = \<lparr>structTypes = [(''Root'', tRoot), (''Tag'', tTag)],
      patternVariables = [(''b'', ''[0-9]+''), (''a'', ''[a-z]+'')], pkgName = ''v2''\<rparr>"

definition exGen :: CodeGenerator where
  "exGen = \<lparr>buf = [], parsed = exParsed, rootObjs = [tRoot], processedTypes = {}\<rparr>"

text \<open>A graph whose root refers to a struct without fields.\<close>

definition tLeaf :: structType where
  "tLeaf = \<lparr>name = ''Root'', fields' = [fTags]\<rparr>"

definition badGen :: CodeGenerator where
  "badGen = \<lparr>buf = [],
      parsed = \<lparr>structTypes = [(''Root'', tLeaf), (''Tag'', tEmpty)],
                 patternVariables = [], pkgName = ''v2''\<rparr>,
      rootObjs = [tLeaf], processedTypes = {}\<rparr>"

lemmas ex_defs =
  stubExternals_def fName_def fTags_def fLabels_def fKey_def fOwner_def fHandler_def
  blankField_def tRoot_def tTag_def tBad_def tEmpty_def exParsed_def exGen_def

lemmas run_defs =
  Let_def generateIsSet_def generateReset_def generateValidation_def selectValidation_def
  isRoot_def customStruct_def childTyp_def Fprint_def flattenName_def jsonName_def
  parseTag_def asciiLower_def asciiLowerChar_def anonymousField_def

text \<open>Both generators are what \<open>NewCodeGenerator\<close> builds for the root \<open>Root\<close>.\<close>

lemma exGen_constructed: "NewCodeGenerator exParsed [''Root''] = Inr exGen"
  by (simp add: NewCodeGenerator_def exGen_def exParsed_def)

lemma badGen_constructed: "NewCodeGenerator (parsed badGen) [''Root''] = Inr badGen"
  by (simp add: NewCodeGenerator_def badGen_def)

lemma unknown_root:
  "NewCodeGenerator exParsed [''Ghost''] = Inl (Errorf ''object with root key Ghost not found'')"
  by (simp add: NewCodeGenerator_def exParsed_def)

section \<open>External names\<close>

lemma Split_nonempty: "Split s \<noteq> []"
  by (induction s) (auto split: list.splits)

lemma hd_Split: "hd (Split s) = takeWhile (\<lambda>c. c \<noteq> CHR '','') s"
  by (induction s) (auto split: list.splits simp: Split_nonempty)

text \<open>
  C6, as stated, fails: a field whose \<open>json\<close> tag is exactly \<open>-\<close> is not left
  without an external name. \<open>jsonName\<close> returns a string in every case, and for this
  tag it is the lower-cased identifier, as for a field with no tag: \<open>name\<close> for the
  field \<open>Name\<close>, an ASCII identifier, on which the lower-casing of the example
  parameters is that of \<open>strings.ToLower\<close>.
\<close>

theorem jsonName_dash_counterexample:
  "tag dashField ''json'' = Some ''-'' \<and> jsonName stubExternals dashField = ''name''"
  by (simp add: dashField_def stubExternals_def jsonName_def parseTag_def asciiLower_def
        asciiLowerChar_def)

text \<open>
  C6, amended: the external name of a field is the tag override, that is the \<open>json\<close>
  tag up to its first comma, when the tag is present and is not \<open>-\<close>; it is the
  lower-cased identifier, \<open>strings.ToLower\<close> of the name of the field, when there is
  no \<open>json\<close> tag, and also when the tag is exactly \<open>-\<close>. The theorem holds for
  whatever function \<open>ToLower\<close> is, so for the one of the library.
\<close>

theorem jsonName_cases:
  "jsonName X f =
     (case tag f ''json'' of
        None \<Rightarrow> ToLower X (Name f)
      | Some t \<Rightarrow> if t = ''-'' then ToLower X (Name f)
                  else takeWhile (\<lambda>c. c \<noteq> CHR '','') t)"
  by (simp add: jsonName_def parseTag_def Let_def hd_Split Split_nonempty split: option.splits)

theorem jsonName_cases_witness:
  "jsonName stubExternals tagField = ''url_full'' \<and> jsonName stubExternals plainField = ''url''
     \<and> jsonName stubExternals dashField = ''name''"
  using jsonName_cases[of stubExternals tagField] jsonName_cases[of stubExternals plainField]
    jsonName_cases[of stubExternals dashField]
  by (simp add: tagField_def plainField_def dashField_def stubExternals_def asciiLower_def
        asciiLowerChar_def)

section \<open>Presence checks\<close>

lemma generateIsSet_no_fields:
  "fields' st = [] \<Longrightarrow>
   generateIsSet X g st key =
     (g, Some (Errorf (''unhandled struct '' @ name st
                 @ '' (does not have any exported fields)'')))"
  by (simp add: generateIsSet_def)

text \<open>
  C4: a type with zero exported fields should fail presence synthesis, as the message
  of the error says (\<open>does not have any exported fields\<close>). A struct without any
  field does fail so. The guard of \<open>generateIsSet\<close> counts all fields, though: for a
  struct whose only field is the blank field \<open>_\<close>, which is not exported, the call
  returns no error and writes a method whose \<open>return\<close> has no expression.
\<close>

theorem generateIsSet_only_unexported:
  "generateIsSet X g \<lparr>name = ''T'', fields' = [blankField]\<rparr> key =
     (Fprint g ([nl] @ ''func (val *T) IsSet() bool {'' @ [nl, tab] @ ''return'' @ [nl]
        @ ''}'' @ [nl]),
      None)"
  by (simp add: generateIsSet_def blankField_def Fprint_def)

text \<open>
  The presence expression as C8 words it: one disjunct for each exported field, in
  declaration order, joined by \<open>||\<close>. \<open>isSetMethod\<close> is the method that returns
  this expression.
\<close>

definition presenceDisjunct :: "structField \<Rightarrow> string" where
  "presenceDisjunct f =
     (case Underlying f of
        TSlice e \<Rightarrow> ''len(val.'' @ Name f @ '') > 0''
      | TMap e \<Rightarrow> ''len(val.'' @ Name f @ '') > 0''
      | TStruct \<Rightarrow> ''val.'' @ Name f @ ''.IsSet()''
      | TOther t \<Rightarrow> [])"

fun orExpr :: "string list \<Rightarrow> string" where
  "orExpr [] = []"
| "orExpr [d] = d"
| "orExpr (d # e # ds) = d @ '' || '' @ orExpr (e # ds)"

definition isSetMethod :: "string \<Rightarrow> structField list \<Rightarrow> string" where
  "isSetMethod n exported =
     [nl] @ ''func (val *'' @ n @ '') IsSet() bool {'' @ [nl, tab]
     @ ''return '' @ orExpr (map presenceDisjunct exported)
     @ [nl] @ ''}'' @ [nl]"

fun orTail :: "string list \<Rightarrow> string" where
  "orTail [] = []"
| "orTail (d # ds) = '' || '' @ d @ orTail ds"

lemma orExpr_Cons: "orExpr (d # ds) = d @ orTail ds"
  by (induction ds arbitrary: d) auto

lemma isSetFields_tail:
  "snd (isSetFields X g key '' ||'' fs) = None \<Longrightarrow>
   buf (fst (isSetFields X g key '' ||'' fs)) =
     buf g @ orTail (map presenceDisjunct (filter Exported fs))"
proof (induction fs arbitrary: g)
  case Nil then show ?case by simp
next
  case (Cons f fs)
  show ?case
  proof (cases "Exported f")
    case False
    then show ?thesis using Cons by simp
  next
    case True
    show ?thesis
      using Cons.prems True
      by (cases "Underlying f") (simp_all add: Cons.IH presenceDisjunct_def Fprint_def)
  qed
qed

lemma isSetFields_head:
  "snd (isSetFields X g key [] fs) = None \<Longrightarrow>
   buf (fst (isSetFields X g key [] fs)) =
     buf g @ (if filter Exported fs = [] then []
              else '' '' @ orExpr (map presenceDisjunct (filter Exported fs)))"
proof (induction fs)
  case Nil then show ?case by simp
next
  case (Cons f fs)
  show ?case
  proof (cases "Exported f")
    case False
    then show ?thesis using Cons by simp
  next
    case True
    show ?thesis
      using Cons.prems True
      by (cases "Underlying f")
         (simp_all add: isSetFields_tail presenceDisjunct_def Fprint_def orExpr_Cons)
  qed
qed

lemma isSetFields_supported:
  "snd (isSetFields X g key p fs) = None \<Longrightarrow>
   list_all (\<lambda>f. Underlying f = TStruct \<or> (\<exists>e. Underlying f = TSlice e \<or> Underlying f = TMap e))
     (filter Exported fs)"
proof (induction fs arbitrary: g p)
  case Nil then show ?case by simp
next
  case (Cons f fs)
  then show ?case by (cases "Underlying f") (auto split: if_splits)
qed

text \<open>
  For a type with at least one exported field the code does what C8 says: when
  presence synthesis succeeds, the text it appends is the \<open>IsSet\<close> method whose body
  returns the \<open>||\<close> of the disjuncts of exactly the exported fields, in declaration
  order: \<open>len(val.F) > 0\<close> for a slice or map field, \<open>val.F.IsSet()\<close> for a field
  whose underlying type is a struct. Every exported field is of one of these shapes,
  and unexported fields contribute nothing.
\<close>

lemma generateIsSet_exported_or:
  assumes "snd (generateIsSet X g st key) = None"
    and "filter Exported (fields' st) \<noteq> []"
  shows "buf (fst (generateIsSet X g st key)) =
           buf g @ isSetMethod (name st) (filter Exported (fields' st))
         \<and> list_all (\<lambda>f. Underlying f = TStruct
                \<or> (\<exists>e. Underlying f = TSlice e \<or> Underlying f = TMap e))
             (filter Exported (fields' st))"
proof -
  let ?g1 = "Fprint g ([nl] @ ''func (val *'' @ name st @ '') IsSet() bool {'' @ [nl, tab]
               @ ''return'')"
  let ?k = "if key \<noteq> [] then key @ ''.'' else key"
  from assms(1) have ne: "length (fields' st) \<noteq> 0"
    by (auto simp: generateIsSet_def)
  obtain g2 e where r: "isSetFields X ?g1 ?k [] (fields' st) = (g2, e)"
    by (cases "isSetFields X ?g1 ?k [] (fields' st)")
  from assms(1) ne r have e: "e = None"
    by (auto simp: generateIsSet_def Let_def split: option.splits)
  have "buf g2 = buf ?g1 @ '' '' @ orExpr (map presenceDisjunct (filter Exported (fields' st)))"
    using isSetFields_head[where X=X and g="?g1" and key="?k" and fs="fields' st"] r e assms(2)
    by simp
  then have "buf (fst (generateIsSet X g st key)) =
           buf g @ isSetMethod (name st) (filter Exported (fields' st))"
    using ne r e by (simp add: generateIsSet_def Let_def isSetMethod_def Fprint_def)
  moreover have "list_all (\<lambda>f. Underlying f = TStruct
                \<or> (\<exists>e. Underlying f = TSlice e \<or> Underlying f = TMap e))
             (filter Exported (fields' st))"
    using isSetFields_supported[where X=X and g="?g1" and key="?k" and p="[]"
        and fs="fields' st"] r e
    by simp
  ultimately show ?thesis by simp
qed

lemma generateIsSet_exported_or_example:
  "snd (generateIsSet stubExternals exGen tRoot []) = None
   \<and> filter Exported (fields' tRoot) = [fName, fTags, fLabels]
   \<and> buf (fst (generateIsSet stubExternals exGen tRoot [])) =
       [nl] @ ''func (val *Root) IsSet() bool {'' @ [nl, tab]
       @ ''return val.Name.IsSet() || len(val.Tags) > 0 || len(val.Labels) > 0''
       @ [nl] @ ''}'' @ [nl]"
proof -
  have ok: "snd (generateIsSet stubExternals exGen tRoot []) = None"
    by (simp add: ex_defs run_defs)
  have ex: "filter Exported (fields' tRoot) = [fName, fTags, fLabels]"
    by (simp add: ex_defs)
  have ne: "filter Exported (fields' tRoot) \<noteq> []" by (simp add: ex)
  show ?thesis
    using ok ex generateIsSet_exported_or[OF ok ne]
    by (simp add: ex_defs isSetMethod_def presenceDisjunct_def)
qed

text \<open>
  C8: whenever presence synthesis succeeds, the body of \<open>IsSet\<close> should be one
  boolean expression, the \<open>||\<close> of one disjunct for each exported field. It is not,
  for a type that has fields but no exported one: by the guard of C4, which counts all
  fields, synthesis succeeds for it too, and the body it writes is a \<open>return\<close> with no
  expression at all. Here the struct has the unexported field \<open>id\<close> and the blank
  field.
\<close>

theorem generateIsSet_bare_return:
  "filter Exported (fields' tHidden) = []
   \<and> generateIsSet X g tHidden key =
       (Fprint g ([nl] @ ''func (val *Hidden) IsSet() bool {'' @ [nl, tab] @ ''return''
          @ [nl] @ ''}'' @ [nl]),
        None)"
  by (simp add: generateIsSet_def tHidden_def fId_def blankField_def Fprint_def)

section \<open>Reset\<close>

text \<open>
  The statements of a \<open>Reset\<close> body as C5 and C10 word them: for a slice field the
  loop that resets every element (only when the element type is a struct of the graph)
  followed by the truncation, for a map field the loop that deletes every key, for a
  struct field the call of its \<open>Reset\<close>. \<open>resetStatements\<close> are those of the exported
  fields of a list, in declaration order.
\<close>

definition elementResets :: "string \<Rightarrow> string" where
  "elementResets n = ''for i := range val.'' @ n @ ''{'' @ [nl, tab] @ ''val.'' @ n @ ''[i].Reset()'' @ [nl] @ ''}'' @ [nl]"

definition truncation :: "string \<Rightarrow> string" where
  "truncation n = ''val.'' @ n @ '' = val.'' @ n @ ''[:0]'' @ [nl]"

definition deleteLoop :: "string \<Rightarrow> string" where
  "deleteLoop n = ''for k := range val.'' @ n @ '' {'' @ [nl, tab] @ ''delete(val.'' @ n @ '', k)'' @ [nl] @ ''}'' @ [nl]"

definition resetStatement :: "CodeGenerator \<Rightarrow> structField \<Rightarrow> string" where
  "resetStatement g f =
     (case Underlying f of
        TSlice e \<Rightarrow> (if customStruct g e \<noteq> None then elementResets (Name f) else []) @ truncation (Name f)
      | TMap e \<Rightarrow> deleteLoop (Name f)
      | TStruct \<Rightarrow> ''val.'' @ Name f @ ''.Reset()'' @ [nl]
      | TOther t \<Rightarrow> [])"

definition resetStatements :: "CodeGenerator \<Rightarrow> structField list \<Rightarrow> string" where
  "resetStatements g fs = concat (map (resetStatement g) (filter Exported fs))"

definition resetHeader :: "string \<Rightarrow> string" where
  "resetHeader n = [nl] @ ''func (val *'' @ n @ '') Reset() {'' @ [nl]"

lemma customStruct_Fprint: "customStruct (Fprint g s) t = customStruct g t"
  by (simp add: customStruct_def Fprint_def)

lemma resetStatement_Fprint: "resetStatement (Fprint g s) = resetStatement g"
  by (rule ext) (simp add: resetStatement_def customStruct_Fprint split: underlying.splits)

lemma resetStatements_Fprint: "resetStatements (Fprint g s) fs = resetStatements g fs"
  by (simp add: resetStatements_def resetStatement_Fprint)

lemma resetStatements_Cons:
  "resetStatements g (f # fs) = (if Exported f then resetStatement g f else []) @ resetStatements g fs"
  by (simp add: resetStatements_def)

lemma resetStatements_append:
  "resetStatements g (xs @ ys) = resetStatements g xs @ resetStatements g ys"
  by (simp add: resetStatements_def)

lemma resetFields_text:
  "snd (resetFields X g key fs) = None \<Longrightarrow>
   buf (fst (resetFields X g key fs)) = buf g @ resetStatements g fs"
proof (induction fs arbitrary: g)
  case Nil then show ?case by (simp add: resetStatements_def)
next
  case (Cons f fs)
  show ?case
  proof (cases "Exported f")
    case False
    then show ?thesis using Cons by (simp add: resetStatements_Cons)
  next
    case True
    show ?thesis
    proof (cases "Underlying f")
      case (TSlice e)
      let ?g1 = "if customStruct g e \<noteq> None then Fprint g (elementResets (Name f)) else g"
      let ?g2 = "Fprint ?g1 (truncation (Name f))"
      have step: "resetFields X g key (f # fs) = resetFields X ?g2 key fs"
        using True TSlice by (simp add: Let_def elementResets_def truncation_def)
      have "buf (fst (resetFields X ?g2 key fs)) = buf ?g2 @ resetStatements ?g2 fs"
        using Cons.prems step by (intro Cons.IH) simp
      moreover have "resetStatements ?g2 fs = resetStatements g fs"
        by (simp add: resetStatements_Fprint)
      moreover have "buf ?g2 = buf g @ resetStatement g f"
        using TSlice by (simp add: resetStatement_def Fprint_def)
      ultimately show ?thesis using step True by (simp add: resetStatements_Cons)
    next
      case (TMap e)
      let ?g2 = "Fprint g (deleteLoop (Name f))"
      have step: "resetFields X g key (f # fs) = resetFields X ?g2 key fs"
        using True TMap by (simp add: deleteLoop_def)
      have "buf (fst (resetFields X ?g2 key fs)) = buf ?g2 @ resetStatements ?g2 fs"
        using Cons.prems step by (intro Cons.IH) simp
      moreover have "buf ?g2 = buf g @ resetStatement g f"
        using TMap by (simp add: resetStatement_def Fprint_def)
      ultimately show ?thesis using step True
        by (simp add: resetStatements_Cons resetStatements_Fprint)
    next
      case TStruct
      let ?g2 = "Fprint g (''val.'' @ Name f @ ''.Reset()'' @ [nl])"
      have step: "resetFields X g key (f # fs) = resetFields X ?g2 key fs"
        using True TStruct by simp
      have "buf (fst (resetFields X ?g2 key fs)) = buf ?g2 @ resetStatements ?g2 fs"
        using Cons.prems step by (intro Cons.IH) simp
      moreover have "buf ?g2 = buf g @ resetStatement g f"
        using TStruct by (simp add: resetStatement_def Fprint_def)
      ultimately show ?thesis using step True
        by (simp add: resetStatements_Cons resetStatements_Fprint)
    next
      case (TOther t)
      then show ?thesis using Cons.prems True by simp
    qed
  qed
qed

lemma generateReset_text:
  assumes "snd (generateReset X g st key) = None"
  shows "buf (fst (generateReset X g st key)) =
           buf g @ resetHeader (name st) @ resetStatements g (fields' st) @ ''}'' @ [nl]"
proof -
  let ?g1 = "Fprint g ([nl] @ ''func (val *'' @ name st @ '') Reset() {'' @ [nl])"
  let ?k = "if key \<noteq> [] then key @ ''.'' else key"
  obtain g2 e where r: "resetFields X ?g1 ?k (fields' st) = (g2, e)"
    by (cases "resetFields X ?g1 ?k (fields' st)")
  from assms r have e: "e = None"
    by (auto simp: generateReset_def Let_def split: option.splits)
  have "buf g2 = buf ?g1 @ resetStatements ?g1 (fields' st)"
    using resetFields_text[where X=X and g="?g1" and key="?k" and fs="fields' st"] r e by simp
  then have "buf g2 = buf ?g1 @ resetStatements g (fields' st)"
    by (simp only: resetStatements_Fprint)
  then show ?thesis
    using r e by (simp add: generateReset_def Let_def resetHeader_def Fprint_def)
qed

text \<open>
  C5: in a \<open>Reset\<close> body that was generated without error, an exported slice field
  \<open>f\<close> stands, between the statements of the fields before it and of those after it,
  as the loop resetting every element followed by the truncation \<open>val.F = val.F[:0]\<close>
  when its element type is a struct of the graph, and as the truncation alone
  otherwise.
\<close>

theorem generateReset_slice_field:
  assumes "fields' st = before @ f # after"
    and "Exported f"
    and "Underlying f = TSlice e"
    and "snd (generateReset X g st key) = None"
  shows "buf (fst (generateReset X g st key)) =
           buf g @ resetHeader (name st) @ resetStatements g before
           @ (if customStruct g e \<noteq> None then elementResets (Name f) else [])
           @ truncation (Name f)
           @ resetStatements g after @ ''}'' @ [nl]"
  using generateReset_text[OF assms(4)] assms(1-3)
  by (simp add: resetStatements_append resetStatements_Cons resetStatement_def)

theorem generateReset_slice_field_witness:
  "fields' tRoot = [fName] @ fTags # [fLabels, blankField]
   \<and> Exported fTags \<and> Underlying fTags = TSlice ''Tag''
   \<and> customStruct exGen ''Tag'' = Some tTag
   \<and> snd (generateReset stubExternals exGen tRoot []) = None
   \<and> buf (fst (generateReset stubExternals exGen tRoot [])) =
       [nl] @ ''func (val *Root) Reset() {'' @ [nl]
       @ ''val.Name.Reset()'' @ [nl]
       @ ''for i := range val.Tags{'' @ [nl, tab] @ ''val.Tags[i].Reset()'' @ [nl] @ ''}'' @ [nl]
       @ ''val.Tags = val.Tags[:0]'' @ [nl]
       @ ''for k := range val.Labels {'' @ [nl, tab] @ ''delete(val.Labels, k)'' @ [nl]
       @ ''}'' @ [nl]
       @ ''}'' @ [nl]"
proof -
  have h1: "fields' tRoot = [fName] @ fTags # [fLabels, blankField]"
    by (simp add: tRoot_def)
  have h2: "Exported fTags" by (simp add: fTags_def)
  have h3: "Underlying fTags = TSlice ''Tag''" by (simp add: fTags_def)
  have h4: "snd (generateReset stubExternals exGen tRoot []) = None"
    by (simp add: ex_defs run_defs)
  have c: "customStruct exGen ''Tag'' = Some tTag"
    by (simp add: customStruct_def exGen_def exParsed_def)
  show ?thesis
    using h1 h2 h3 h4 c generateReset_slice_field[OF h1 h2 h3 h4]
    by (simp add: resetHeader_def resetStatements_def resetStatement_def elementResets_def
          truncation_def deleteLoop_def ex_defs customStruct_def)
qed

text \<open>
  C10: in a \<open>Reset\<close> body that was generated without error, an exported map field
  \<open>f\<close> stands as the loop that deletes every key of the map, and as nothing else:
  whatever the element type of the map, also a struct of the graph, no element is
  reset before it is deleted.
\<close>

theorem generateReset_map_field:
  assumes "fields' st = before @ f # after"
    and "Exported f"
    and "Underlying f = TMap e"
    and "snd (generateReset X g st key) = None"
  shows "buf (fst (generateReset X g st key)) =
           buf g @ resetHeader (name st) @ resetStatements g before
           @ deleteLoop (Name f)
           @ resetStatements g after @ ''}'' @ [nl]"
  using generateReset_text[OF assms(4)] assms(1-3)
  by (simp add: resetStatements_append resetStatements_Cons resetStatement_def)

theorem generateReset_map_field_witness:
  "fields' tRoot = [fName, fTags] @ fLabels # [blankField]
   \<and> Exported fLabels \<and> Underlying fLabels = TMap ''Tag''
   \<and> customStruct exGen ''Tag'' = Some tTag
   \<and> snd (generateReset stubExternals exGen tRoot []) = None
   \<and> buf (fst (generateReset stubExternals exGen tRoot [])) =
       [nl] @ ''func (val *Root) Reset() {'' @ [nl]
       @ resetStatements exGen [fName, fTags]
       @ ''for k := range val.Labels {'' @ [nl, tab] @ ''delete(val.Labels, k)'' @ [nl]
       @ ''}'' @ [nl]
       @ ''}'' @ [nl]"
proof -
  have h1: "fields' tRoot = [fName, fTags] @ fLabels # [blankField]"
    by (simp add: tRoot_def)
  have h2: "Exported fLabels" by (simp add: fLabels_def)
  have h3: "Underlying fLabels = TMap ''Tag''" by (simp add: fLabels_def)
  have h4: "snd (generateReset stubExternals exGen tRoot []) = None"
    by (simp add: ex_defs run_defs)
  have c: "customStruct exGen ''Tag'' = Some tTag"
    by (simp add: customStruct_def exGen_def exParsed_def)
  have r: "resetStatements exGen [blankField] = []"
    by (simp add: resetStatements_def blankField_def)
  have n: "Name fLabels = ''Labels''" "name tRoot = ''Root''" "buf exGen = []"
    by (simp_all add: ex_defs)
  have "buf (fst (generateReset stubExternals exGen tRoot [])) =
       [nl] @ ''func (val *Root) Reset() {'' @ [nl]
       @ resetStatements exGen [fName, fTags]
       @ ''for k := range val.Labels {'' @ [nl, tab] @ ''delete(val.Labels, k)'' @ [nl]
       @ ''}'' @ [nl]
       @ ''}'' @ [nl]"
    using generateReset_map_field[OF h1 h2 h3 h4]
    by (simp add: resetHeader_def deleteLoop_def r n)
  then show ?thesis
    using h1 h2 h3 h4 c by simp
qed

section \<open>Validation\<close>

text \<open>
  The pieces of a \<open>validate\<close> method. \<open>validationRules\<close> is the text that the loop
  over the fields writes: the buffer it leaves when it starts on an empty one. Which
  text that is depends on the rule functions, which are parameters.
\<close>

definition validationRules ::
  "externals \<Rightarrow> CodeGenerator \<Rightarrow> string \<Rightarrow> structField list \<Rightarrow> string" where
  "validationRules X g key fs = buf (fst (validationFields X (g\<lparr>buf := []\<rparr>) key fs fs))"

definition validateHeader :: "string \<Rightarrow> string" where
  "validateHeader n = [nl] @ ''func (val *'' @ n @ '') validate() error {'' @ [nl]"

definition presenceShortCircuit :: string where
  "presenceShortCircuit = ''if !val.IsSet() {'' @ [nl, tab] @ ''return nil'' @ [nl] @ ''}'' @ [nl]"

definition validateFooter :: string where
  "validateFooter = ''return nil'' @ [nl] @ ''}'' @ [nl]"

lemma selectValidation_buf: "selectValidation X (g\<lparr>buf := b\<rparr>) f = selectValidation X g f"
  by (simp add: selectValidation_def customStruct_def split: underlying.splits)

lemma validationFields_skip:
  "\<not> Exported f \<Longrightarrow> Name f \<noteq> anonymousField \<Longrightarrow>
   validationFields X g key all (f # fs) = validationFields X g key all fs"
  by simp

lemma validationFields_considered:
  "Exported f \<or> Name f = anonymousField \<Longrightarrow>
   validationFields X g key all (f # fs) =
     (case selectValidation X g f of
          Inl err \<Rightarrow> (g, Some (Wrap err (flattenName X key f)))
        | Inr (validation, custom) \<Rightarrow>
            (case validation all f custom of
               (out, Some err) \<Rightarrow> (Fprint g out, Some (Wrap err (flattenName X key f)))
             | (out, None) \<Rightarrow> validationFields X (Fprint g out) key all fs))"
  by auto

lemma validationFields_buf:
  "validationFields X (g\<lparr>buf := b\<rparr>) key all fs =
     (case validationFields X (g\<lparr>buf := []\<rparr>) key all fs of
        (h, e) \<Rightarrow> (h\<lparr>buf := b @ buf h\<rparr>, e))"
proof (induction fs arbitrary: b)
  case Nil show ?case by simp
next
  case (Cons f fs)
  show ?case
  proof (cases "\<not> Exported f \<and> Name f \<noteq> anonymousField")
    case True
    then show ?thesis using Cons.IH[of b] by simp
  next
    case False
    then have c: "Exported f \<or> Name f = anonymousField" by simp
    note cs = validationFields_considered[OF c]
    show ?thesis
    proof (cases "selectValidation X g f")
      case (Inl err)
      then show ?thesis by (simp add: cs selectValidation_buf del: validationFields.simps(2))
    next
      case (Inr vc)
      obtain v c where vc: "vc = (v, c)" by (cases vc)
      obtain out e where o: "v all f c = (out, e)" by (cases "v all f c")
      show ?thesis
      proof (cases e)
        case (Some err)
        then show ?thesis using Inr vc o
          by (simp add: cs selectValidation_buf Fprint_def del: validationFields.simps(2))
      next
        case None
        have L: "validationFields X (g\<lparr>buf := b\<rparr>) key all (f # fs) =
                 validationFields X (g\<lparr>buf := b @ out\<rparr>) key all fs"
          using Inr vc o None
          by (simp add: cs selectValidation_buf Fprint_def del: validationFields.simps(2))
        have R: "validationFields X (g\<lparr>buf := []\<rparr>) key all (f # fs) =
                 validationFields X (g\<lparr>buf := out\<rparr>) key all fs"
          using Inr vc o None
          by (simp add: cs selectValidation_buf Fprint_def del: validationFields.simps(2))
        obtain h e' where q: "validationFields X (g\<lparr>buf := []\<rparr>) key all fs = (h, e')"
          by (cases "validationFields X (g\<lparr>buf := []\<rparr>) key all fs")
        show ?thesis
          unfolding L R Cons.IH[of "b @ out"] Cons.IH[of out] q by simp
      qed
    qed
  qed
qed

lemma validationFields_from:
  "validationFields X g key all fs =
     (case validationFields X (g\<lparr>buf := []\<rparr>) key all fs of
        (h, e) \<Rightarrow> (h\<lparr>buf := buf g @ buf h\<rparr>, e))"
  using validationFields_buf[where g=g and b="buf g"] by simp

lemma generateValidation_unfold:
  "generateValidation X g st key =
     (case validationFields X
             (g\<lparr>buf := buf g @ validateHeader (name st)
                  @ (if isRoot g st then [] else presenceShortCircuit)\<rparr>)
             key (fields' st) (fields' st) of
        (g3, Some err) \<Rightarrow> (g3, Some err)
      | (g3, None) \<Rightarrow> (Fprint g3 validateFooter, None))"
proof -
  have g2: "(if \<not> isRoot g st
             then Fprint (Fprint g ([nl] @ ''func (val *'' @ name st @ '') validate() error {'' @ [nl]))
                    (''if !val.IsSet() {'' @ [nl, tab] @ ''return nil'' @ [nl] @ ''}'' @ [nl])
             else Fprint g ([nl] @ ''func (val *'' @ name st @ '') validate() error {'' @ [nl]))
          = g\<lparr>buf := buf g @ validateHeader (name st)
                  @ (if isRoot g st then [] else presenceShortCircuit)\<rparr>"
    by (simp add: Fprint_def validateHeader_def presenceShortCircuit_def)
  show ?thesis
    by (simp only: generateValidation_def Let_def g2 validateFooter_def)
qed

lemma isRoot_iff: "isRoot g st \<longleftrightarrow> name st \<in> name ` set (rootObjs g)"
  by (auto simp: isRoot_def list_ex_iff)

text \<open>
  C3: the text that \<open>generateValidation\<close> appends for a type is the header of the
  method, then the short-circuit \<open>if !val.IsSet() { return nil }\<close> exactly when the
  name of the type is not the name of a root, then what the rules of the fields write
  and, unless a rule failed, the closing \<open>return nil\<close>. For a root nothing stands
  between the header and the rules of the fields.
\<close>

theorem generateValidation_short_circuit:
  "buf (fst (generateValidation X g st key)) =
     buf g @ validateHeader (name st)
     @ (if name st \<in> name ` set (rootObjs g) then [] else presenceShortCircuit)
     @ validationRules X g key (fields' st)
     @ (if snd (generateValidation X g st key) = None then validateFooter else [])"
proof -
  let ?b = "buf g @ validateHeader (name st)
     @ (if isRoot g st then [] else presenceShortCircuit)"
  obtain h e where r: "validationFields X (g\<lparr>buf := []\<rparr>) key (fields' st) (fields' st) = (h, e)"
    by (cases "validationFields X (g\<lparr>buf := []\<rparr>) key (fields' st) (fields' st)")
  have run: "validationFields X (g\<lparr>buf := ?b\<rparr>) key (fields' st) (fields' st)
               = (h\<lparr>buf := ?b @ buf h\<rparr>, e)"
    using validationFields_buf[where g=g and b="?b" and X=X and key=key
        and all="fields' st" and fs="fields' st"] r
    by simp
  show ?thesis
    unfolding generateValidation_unfold run using r
    by (cases e) (simp_all add: validationRules_def Fprint_def isRoot_iff)
qed

theorem generateValidation_short_circuit_witness:
  "buf (fst (generateValidation stubExternals exGen tTag ''tags'')) =
     [nl] @ ''func (val *Tag) validate() error {'' @ [nl]
     @ ''if !val.IsSet() {'' @ [nl, tab] @ ''return nil'' @ [nl] @ ''}'' @ [nl]
     @ ''return nil'' @ [nl] @ ''}'' @ [nl]
   \<and> buf (fst (generateValidation stubExternals exGen tRoot [])) =
     [nl] @ ''func (val *Root) validate() error {'' @ [nl]
     @ ''return nil'' @ [nl] @ ''}'' @ [nl]"
proof -
  have e: "snd (generateValidation stubExternals exGen tTag ''tags'') = None"
    "snd (generateValidation stubExternals exGen tRoot []) = None"
    by (simp_all add: ex_defs run_defs)
  have r: "validationRules stubExternals exGen ''tags'' (fields' tTag) = []"
    "validationRules stubExternals exGen [] (fields' tRoot) = []"
    by (simp_all add: validationRules_def ex_defs run_defs)
  have n: "name tTag = ''Tag''" "name tRoot = ''Root''" "buf exGen = []"
    "name ` set (rootObjs exGen) = {''Root''}"
    by (simp_all add: ex_defs)
  show ?thesis
    using generateValidation_short_circuit[of stubExternals exGen tTag "''tags''"]
      generateValidation_short_circuit[of stubExternals exGen tRoot "[]"]
    by (simp add: e r n validateHeader_def presenceShortCircuit_def validateFooter_def)
qed

lemma validationFields_append:
  "validationFields X g key all (xs @ ys) =
     (case validationFields X g key all xs of
        (g1, None) \<Rightarrow> validationFields X g1 key all ys
      | (g1, Some e) \<Rightarrow> (g1, Some e))"
proof (induction xs arbitrary: g)
  case Nil show ?case by simp
next
  case (Cons f xs)
  show ?case
    by (simp add: Cons.IH split: sum.splits prod.splits option.splits)
qed

lemma validationFields_error_buf:
  "snd (validationFields X (g\<lparr>buf := b\<rparr>) key all fs) = snd (validationFields X g key all fs)"
  using validationFields_buf[where g=g and b=b and X=X and key=key and all=all and fs=fs]
    validationFields_from[where g=g and X=X and key=key and all=all and fs=fs]
  by (simp split: prod.splits)

lemma selectValidation_unsupported:
  assumes "TypeString f \<notin> {nullableTypeString X, nullableTypeInt X, nullableTypeFloat64 X,
             nullableTypeInterface X}"
    and "Underlying f = TOther t"
  shows "selectValidation X g f = Inl (Errorf (''unhandled type '' @ t))"
  using assms by (simp add: selectValidation_def)

lemma generateValidation_error:
  "snd (generateValidation X g st key) =
     snd (validationFields X g key (fields' st) (fields' st))"
proof -
  let ?b = "buf g @ validateHeader (name st)
     @ (if isRoot g st then [] else presenceShortCircuit)"
  obtain h e where r: "validationFields X (g\<lparr>buf := ?b\<rparr>) key (fields' st) (fields' st) = (h, e)"
    by (cases "validationFields X (g\<lparr>buf := ?b\<rparr>) key (fields' st) (fields' st)")
  have "snd (generateValidation X g st key) = e"
    unfolding generateValidation_unfold r by (cases e) simp_all
  also have "e = snd (validationFields X (g\<lparr>buf := ?b\<rparr>) key (fields' st) (fields' st))"
    using r by simp
  also have "\<dots> = snd (validationFields X g key (fields' st) (fields' st))"
    by (rule validationFields_error_buf)
  finally show ?thesis .
qed

text \<open>
  C7: let \<open>f\<close> be a field that validation synthesis considers (exported, or the
  blank field), reached without an error on the fields before it, whose type is none
  of the nullable types and whose underlying type is neither a slice, a map nor a
  struct. Then \<open>generateValidation\<close> fails, with the error \<open>unhandled type\<close> wrapped
  in the flattened key of the field: the message starts with the parent key, a dot
  (when the parent key is not empty) and the external name of the field.
\<close>

theorem generateValidation_unsupported_field:
  assumes "fields' st = before @ f # after"
    and "Exported f \<or> Name f = anonymousField"
    and "TypeString f \<notin> {nullableTypeString X, nullableTypeInt X, nullableTypeFloat64 X,
             nullableTypeInterface X}"
    and "Underlying f = TOther t"
    and "snd (validationFields X g key (fields' st) before) = None"
  shows "snd (generateValidation X g st key) =
           Some (Wrap (Errorf (''unhandled type '' @ t)) (flattenName X key f))
         \<and> Error (Wrap (Errorf (''unhandled type '' @ t)) (flattenName X key f)) =
             (if key = [] then [] else key @ ''.'') @ jsonName X f @ '': unhandled type '' @ t"
proof -
  obtain g1 where b: "validationFields X g key (fields' st) before = (g1, None)"
    using assms(5) by (cases "validationFields X g key (fields' st) before") simp
  have "validationFields X g1 key (fields' st) (f # after) =
          (g1, Some (Wrap (Errorf (''unhandled type '' @ t)) (flattenName X key f)))"
    by (simp add: validationFields_considered[OF assms(2)]
          selectValidation_unsupported[OF assms(3,4)] del: validationFields.simps(2))
  then have "validationFields X g key (fields' st) (fields' st) =
          (g1, Some (Wrap (Errorf (''unhandled type '' @ t)) (flattenName X key f)))"
    using validationFields_append[of X g key "fields' st" before "f # after"] b assms(1)
    by simp
  then show ?thesis
    by (simp add: generateValidation_error flattenName_def)
qed

theorem generateValidation_unsupported_field_witness:
  "fields' tBad = [fName] @ fHandler # []
   \<and> Exported fHandler
   \<and> Underlying fHandler = TOther ''*types.Signature''
   \<and> snd (validationFields stubExternals exGen ''tags'' (fields' tBad) [fName]) = None
   \<and> Error (the (snd (generateValidation stubExternals exGen tBad ''tags''))) =
       ''tags.handler: unhandled type *types.Signature''"
proof -
  have h1: "fields' tBad = [fName] @ fHandler # []" by (simp add: tBad_def)
  have h2: "Exported fHandler \<or> Name fHandler = anonymousField" by (simp add: fHandler_def)
  have h3: "TypeString fHandler \<notin> {nullableTypeString stubExternals,
      nullableTypeInt stubExternals, nullableTypeFloat64 stubExternals,
      nullableTypeInterface stubExternals}"
    by (simp add: fHandler_def stubExternals_def)
  have h4: "Underlying fHandler = TOther ''*types.Signature''" by (simp add: fHandler_def)
  have h5: "snd (validationFields stubExternals exGen ''tags'' (fields' tBad) [fName]) = None"
    by (simp add: ex_defs run_defs)
  have n: "jsonName stubExternals fHandler = ''handler''" "Exported fHandler"
    by (simp_all add: fHandler_def stubExternals_def jsonName_def parseTag_def asciiLower_def asciiLowerChar_def)
  show ?thesis
    using h1 h4 h5 n generateValidation_unsupported_field[OF h1 h2 h3 h4 h5]
    by simp
qed

section \<open>The whole run\<close>

text \<open>
  \<open>preamble\<close> is what \<open>Generate\<close> writes before it turns to the root structs: the
  file header, one declaration for each key of the pattern variables in the order of
  \<open>sortKeys\<close>, and the closing parenthesis.
\<close>

definition preamble :: "CodeGenerator \<Rightarrow> string" where
  "preamble g = fileHeader (pkgName (parsed g))
     @ concat (map patternDecl (sortKeys (patternVariables (parsed g)))) @ '')'' @ [nl]"

lemma generateRootObjs_grows: "grows g (fst (generateRootObjs X g rs))"
proof (induction rs arbitrary: g)
  case Nil show ?case by (simp add: grows_refl)
next
  case (Cons r rs)
  obtain g1 e where q: "generate X g r [] = (g1, e)" by (cases "generate X g r []")
  have a: "grows g g1" using generate_grows[of g X r "[]"] q by simp
  show ?case
  proof (cases e)
    case None
    then show ?thesis using q a Cons.IH[of g1] by (auto intro: grows_trans)
  next
    case (Some err)
    then show ?thesis using q a by simp
  qed
qed


lemma foldl_patternDecl:
  "foldl (\<lambda>acc n. Fprint acc (patternDecl n)) g ns = g\<lparr>buf := buf g @ concat (map patternDecl ns)\<rparr>"
  by (induction ns arbitrary: g) (simp_all add: Fprint_def)

lemma Generate_unfold:
  "Generate X g = generateRootObjs X (g\<lparr>buf := buf g @ preamble g\<rparr>) (rootObjs g)"
  unfolding Generate_def Let_def foldl_patternDecl
  by (simp add: Fprint_def preamble_def)




section \<open>Updates that the generators do not observe\<close>

text \<open>
  The three generators read of the generator only the struct types (in
  \<open>customStruct\<close>) and the root structs (in \<open>isRoot\<close>), and write only by
  \<open>Fprint\<close>. An update \<open>u\<close> of the generator that leaves the two alone and commutes
  with \<open>Fprint\<close> (\<open>transparent\<close>) therefore commutes with each of them. \<open>onFst\<close>
  applies a function to the generator of a result.
\<close>

definition onFst :: "('a \<Rightarrow> 'b) \<Rightarrow> 'a \<times> 'c \<Rightarrow> 'b \<times> 'c" where
  "onFst h r = (h (fst r), snd r)"

lemma onFst_pair: "onFst h (a, b) = (h a, b)" by (simp add: onFst_def)

definition transparent :: "(CodeGenerator \<Rightarrow> CodeGenerator) \<Rightarrow> bool" where
  "transparent u \<longleftrightarrow>
     (\<forall>g s. Fprint (u g) s = u (Fprint g s))
     \<and> (\<forall>g. structTypes (parsed (u g)) = structTypes (parsed g))
     \<and> (\<forall>g. rootObjs (u g) = rootObjs g)"

lemma tr_Fprint: "transparent u \<Longrightarrow> Fprint (u g) s = u (Fprint g s)"
  by (simp add: transparent_def)

lemma tr_customStruct: "transparent u \<Longrightarrow> customStruct (u g) t = customStruct g t"
  by (simp add: transparent_def customStruct_def)

lemma tr_isRoot: "transparent u \<Longrightarrow> isRoot (u g) st = isRoot g st"
  by (simp add: transparent_def isRoot_def)

lemma tr_finish:
  "transparent u \<Longrightarrow>
   (case onFst u r of (g2, Some err) \<Rightarrow> (g2, Some err) | (g2, None) \<Rightarrow> (Fprint g2 s, None))
   = onFst u (case r of (g2, Some err) \<Rightarrow> (g2, Some err) | (g2, None) \<Rightarrow> (Fprint g2 s, None))"
  by (cases r; cases "snd r") (auto simp: onFst_def tr_Fprint)

lemma tr_isSetFields:
  assumes "transparent u"
  shows "isSetFields X (u g) key p fs = onFst u (isSetFields X g key p fs)"
proof (induction fs arbitrary: g p)
  case Nil show ?case by (simp add: onFst_def)
next
  case (Cons f fs)
  show ?case
    by (cases "Underlying f") (simp_all add: tr_Fprint[OF assms] Cons.IH onFst_def)
qed

lemma tr_generateIsSet:
  assumes "transparent u"
  shows "generateIsSet X (u g) st key = onFst u (generateIsSet X g st key)"
  unfolding generateIsSet_def Let_def tr_Fprint[OF assms] tr_isSetFields[OF assms]
    tr_finish[OF assms]
  by (simp add: onFst_def)

lemma tr_resetFields:
  assumes "transparent u"
  shows "resetFields X (u g) key fs = onFst u (resetFields X g key fs)"
proof (induction fs arbitrary: g)
  case Nil show ?case by (simp add: onFst_def)
next
  case (Cons f fs)
  show ?case
    by (cases "Underlying f")
       (simp_all add: tr_Fprint[OF assms] tr_customStruct[OF assms] Cons.IH Let_def onFst_def)
qed

lemma tr_generateReset:
  assumes "transparent u"
  shows "generateReset X (u g) st key = onFst u (generateReset X g st key)"
  unfolding generateReset_def Let_def tr_Fprint[OF assms] tr_resetFields[OF assms]
    tr_finish[OF assms]
  by simp

lemma tr_selectValidation:
  "transparent u \<Longrightarrow> selectValidation X (u g) f = selectValidation X g f"
  by (simp add: selectValidation_def tr_customStruct split: underlying.splits)

lemma tr_validationFields:
  assumes "transparent u"
  shows "validationFields X (u g) key all fs = onFst u (validationFields X g key all fs)"
proof (induction fs arbitrary: g)
  case Nil show ?case by (simp add: onFst_def)
next
  case (Cons f fs)
  show ?case
    by (simp add: tr_selectValidation[OF assms] tr_Fprint[OF assms] Cons.IH onFst_def
          split: sum.splits prod.splits option.splits)
qed

lemma tr_generateValidation:
  assumes "transparent u"
  shows "generateValidation X (u g) st key = onFst u (generateValidation X g st key)"
  unfolding generateValidation_def Let_def tr_isRoot[OF assms] tr_Fprint[OF assms]
  by (simp add: tr_validationFields[OF assms] tr_finish[OF assms] if_distrib[of u, symmetric]
        del: validationFields.simps)

lemma transparent_prepend: "transparent (\<lambda>h. h\<lparr>buf := b @ buf h\<rparr>)"
  by (simp add: transparent_def Fprint_def)

lemma transparent_processed: "transparent (\<lambda>h. h\<lparr>processedTypes := P\<rparr>)"
  by (simp add: transparent_def Fprint_def)

section \<open>The traversal\<close>

text \<open>
  \<open>synthesize\<close> is the part of \<open>generate\<close> between the marking of the type and the
  loop over its fields: the three generators in sequence, stopping at the first error.
  \<open>methodsText\<close> is the text it writes for a type under a key: the buffer it leaves
  when it starts on an empty one. (The key only shows in error messages; when a
  generator fails, the text is what was written up to the failure.)
\<close>

definition synthesize ::
  "externals \<Rightarrow> CodeGenerator \<Rightarrow> structType \<Rightarrow> string \<Rightarrow> CodeGenerator \<times> error option" where
  "synthesize X g st key =
     (case generateIsSet X g st key of
        (g1, Some err) \<Rightarrow> (g1, Some err)
      | (g1, None) \<Rightarrow>
     (case generateReset X g1 st key of
        (g2, Some err) \<Rightarrow> (g2, Some err)
      | (g2, None) \<Rightarrow> generateValidation X g2 st key))"

definition methodsText :: "externals \<Rightarrow> CodeGenerator \<Rightarrow> structType \<Rightarrow> string \<Rightarrow> string" where
  "methodsText X g st key = buf (fst (synthesize X (g\<lparr>buf := []\<rparr>) st key))"

text \<open>
  \<open>traced X g g' visits\<close>: from \<open>g\<close> to \<open>g'\<close> the types of \<open>visits\<close> were
  synthesized, in this order and each under its key. Their names are pairwise
  different, none was processed in \<open>g\<close>, they are what \<open>processedTypes\<close> gained, and
  the buffer gained their texts, one after the other, and nothing else.
\<close>

definition traced ::
  "externals \<Rightarrow> CodeGenerator \<Rightarrow> CodeGenerator \<Rightarrow> (structType \<times> string) list \<Rightarrow> bool" where
  "traced X g g' visits \<longleftrightarrow>
     distinct (map (\<lambda>v. name (fst v)) visits)
     \<and> (\<forall>v\<in>set visits. name (fst v) \<notin> processedTypes g)
     \<and> processedTypes g' = processedTypes g \<union> set (map (\<lambda>v. name (fst v)) visits)
     \<and> buf g' = buf g @ concat (map (\<lambda>v. methodsText X g (fst v) (snd v)) visits)"

lemma generate_marks: "name st \<in> processedTypes (fst (generate X g st key))"
proof (cases "name st \<in> processedTypes g")
  case True
  then show ?thesis by (simp add: generate.simps)
next
  case False
  let ?g0 = "g\<lparr>processedTypes := insert (name st) (processedTypes g)\<rparr>"
  obtain g1 e1 where r1: "generateIsSet X ?g0 st key = (g1, e1)" by (cases "generateIsSet X ?g0 st key")
  obtain g2 e2 where r2: "generateReset X g1 st key = (g2, e2)" by (cases "generateReset X g1 st key")
  obtain g3 e3 where r3: "generateValidation X g2 st key = (g3, e3)"
    by (cases "generateValidation X g2 st key")
  note fr = synth_frame[OF r1 r2 r3]
  have in1: "name st \<in> processedTypes g1" "name st \<in> processedTypes g2"
    "name st \<in> processedTypes g3"
    using fr by (auto simp: same_frame_def)
  have "name st \<in> processedTypes (fst (generateFields X g3 k (fields' st)))" for k
    using generateFields_grows[of g3 X k "fields' st"] in1(3) by (auto simp: grows_def)
  then show ?thesis
    using False r1 r2 r3 in1
    by (cases e1; cases e2; cases e3) (simp_all add: generate.simps)
qed

lemma generate_synthesize:
  "generate X g st key =
     (if name st \<in> processedTypes g then (g, None)
      else (case synthesize X (g\<lparr>processedTypes := insert (name st) (processedTypes g)\<rparr>) st key of
              (g3, Some err) \<Rightarrow> (g3, Some err)
            | (g3, None) \<Rightarrow>
                generateFields X g3 (if key \<noteq> [] then key @ ''.'' else key) (fields' st)))"
  by (subst generate.simps) (simp add: synthesize_def split: prod.splits option.splits)

lemma tr_synthesize:
  assumes "transparent u"
  shows "synthesize X (u g) st key = onFst u (synthesize X g st key)"
proof -
  obtain g1 e1 where r1: "generateIsSet X g st key = (g1, e1)" by (cases "generateIsSet X g st key")
  obtain g2 e2 where r2: "generateReset X g1 st key = (g2, e2)" by (cases "generateReset X g1 st key")
  have w1: "generateIsSet X (u g) st key = (u g1, e1)"
    by (simp add: tr_generateIsSet[OF assms] r1 onFst_def)
  have w2: "generateReset X (u g1) st key = (u g2, e2)"
    by (simp add: tr_generateReset[OF assms] r2 onFst_def)
  show ?thesis
    by (cases e1; cases e2)
       (simp_all add: synthesize_def r1 r2 w1 w2 onFst_def tr_generateValidation[OF assms])
qed

lemma synthesize_frame: "same_frame g (fst (synthesize X g st key))"
proof -
  obtain g1 e1 where r1: "generateIsSet X g st key = (g1, e1)" by (cases "generateIsSet X g st key")
  obtain g2 e2 where r2: "generateReset X g1 st key = (g2, e2)" by (cases "generateReset X g1 st key")
  have a: "same_frame g g1" using generateIsSet_frame[where X=X and g=g and st=st and key=key] r1 by simp
  have "same_frame g1 g2" using generateReset_frame[where X=X and g=g1 and st=st and key=key] r2 by simp
  with a have b: "same_frame g g2" by (rule same_frame_trans)
  have "same_frame g2 (fst (generateValidation X g2 st key))" by (rule generateValidation_frame)
  with b have c: "same_frame g (fst (generateValidation X g2 st key))" by (rule same_frame_trans)
  show ?thesis
    by (cases e1; cases e2) (simp_all add: synthesize_def r1 r2 a b c)
qed

lemma synthesize_buf:
  "buf (fst (synthesize X g st key)) = buf g @ methodsText X g st key"
proof -
  let ?u = "\<lambda>h. h\<lparr>buf := buf g @ buf h\<rparr>"
  have "g = ?u (g\<lparr>buf := []\<rparr>)" by simp
  then have "synthesize X g st key = synthesize X (?u (g\<lparr>buf := []\<rparr>)) st key" by simp
  also have "\<dots> = onFst ?u (synthesize X (g\<lparr>buf := []\<rparr>) st key)"
    by (rule tr_synthesize[OF transparent_prepend])
  finally show ?thesis by (simp add: onFst_def methodsText_def)
qed

lemma methodsText_cong:
  assumes "parsed g' = parsed g" and "rootObjs g' = rootObjs g"
  shows "methodsText X g' st key = methodsText X g st key"
proof -
  let ?u = "\<lambda>h. h\<lparr>processedTypes := processedTypes g'\<rparr>"
  have "g'\<lparr>buf := []\<rparr> = ?u (g\<lparr>buf := []\<rparr>)" using assms by simp
  then have "synthesize X (g'\<lparr>buf := []\<rparr>) st key = onFst ?u (synthesize X (g\<lparr>buf := []\<rparr>) st key)"
    using tr_synthesize[OF transparent_processed, of X "processedTypes g'" "g\<lparr>buf := []\<rparr>" st key]
    by simp
  then show ?thesis by (simp add: methodsText_def onFst_def)
qed

lemma traced_refl: "traced X g g []"
  by (simp add: traced_def)

lemma traced_trans:
  assumes "traced X g g1 vs1" and "traced X g1 g2 vs2"
    and "parsed g1 = parsed g" and "rootObjs g1 = rootObjs g"
  shows "traced X g g2 (vs1 @ vs2)"
proof -
  have m: "methodsText X g1 = methodsText X g"
    by (intro ext) (rule methodsText_cong[OF assms(3,4)])
  let ?n = "\<lambda>v::structType \<times> string. name (fst v)"
  from assms(1) have a: "distinct (map ?n vs1)" "\<forall>v\<in>set vs1. ?n v \<notin> processedTypes g"
    "processedTypes g1 = processedTypes g \<union> set (map ?n vs1)"
    "buf g1 = buf g @ concat (map (\<lambda>v. methodsText X g (fst v) (snd v)) vs1)"
    by (simp_all add: traced_def)
  from assms(2) have b: "distinct (map ?n vs2)" "\<forall>v\<in>set vs2. ?n v \<notin> processedTypes g1"
    "processedTypes g2 = processedTypes g1 \<union> set (map ?n vs2)"
    "buf g2 = buf g1 @ concat (map (\<lambda>v. methodsText X g (fst v) (snd v)) vs2)"
    by (simp_all add: traced_def m)
  have in1: "set (map ?n vs1) \<subseteq> processedTypes g1" using a(3) by auto
  have out2: "x \<notin> processedTypes g1" if "x \<in> set (map ?n vs2)" for x
    using that b(2) by auto
  have disj: "set (map ?n vs1) \<inter> set (map ?n vs2) = {}"
    using in1 out2 by blast
  have "distinct (map ?n (vs1 @ vs2))" using a(1) b(1) disj by simp
  moreover have "\<forall>v\<in>set (vs1 @ vs2). ?n v \<notin> processedTypes g"
    using a(2) b(2) a(3) by (simp add: ball_Un)
  moreover have "processedTypes g2 = processedTypes g \<union> set (map ?n (vs1 @ vs2))"
    using a(3) b(3) by auto
  moreover have "buf g2 = buf g @ concat (map (\<lambda>v. methodsText X g (fst v) (snd v)) (vs1 @ vs2))"
    using a(4) b(4) by simp
  ultimately show ?thesis unfolding traced_def by blast
qed

lemma traced_synthesize:
  assumes "name st \<notin> processedTypes g"
  shows "traced X g (fst (synthesize X (g\<lparr>processedTypes := insert (name st) (processedTypes g)\<rparr>) st key))
           [(st, key)]"
proof -
  let ?g0 = "g\<lparr>processedTypes := insert (name st) (processedTypes g)\<rparr>"
  have f: "same_frame ?g0 (fst (synthesize X ?g0 st key))" by (rule synthesize_frame)
  have "methodsText X ?g0 st key = methodsText X g st key"
    by (rule methodsText_cong) simp_all
  then have "buf (fst (synthesize X ?g0 st key)) = buf g @ methodsText X g st key"
    using synthesize_buf[of X ?g0 st key] by simp
  then show ?thesis
    using assms f by (auto simp: traced_def same_frame_def)
qed

lemma generate_traced:
  "\<exists>visits. traced X g (fst (generate X g st key)) visits"
  "\<exists>visits. traced X g (fst (generateFields X g key fs)) visits"
proof (induction X g st key and X g key fs rule: generate_generateFields.induct)
  case (1 X g st key)
  let ?g0 = "g\<lparr>processedTypes := insert (name st) (processedTypes g)\<rparr>"
  show ?case
  proof (cases "name st \<in> processedTypes g")
    case True
    then show ?thesis using traced_refl by (auto simp: generate.simps)
  next
    case False
    obtain g3 e where s: "synthesize X ?g0 st key = (g3, e)" by (cases "synthesize X ?g0 st key")
    have t: "traced X g g3 [(st, key)]" using traced_synthesize[OF False, of X key] s by simp
    have fr: "same_frame ?g0 g3" using synthesize_frame[of ?g0 X st key] s by simp
    show ?thesis
    proof (cases e)
      case (Some err)
      then show ?thesis using False s t by (auto simp: generate_synthesize)
    next
      case None
      obtain g1 e1 where r1: "generateIsSet X ?g0 st key = (g1, e1)"
        by (cases "generateIsSet X ?g0 st key")
      obtain g2 e2 where r2: "generateReset X g1 st key = (g2, e2)"
        by (cases "generateReset X g1 st key")
      obtain g3' e3 where r3: "generateValidation X g2 st key = (g3', e3)"
        by (cases "generateValidation X g2 st key")
      from s None r1 r2 r3 have ok: "e1 = None" "e2 = None" "e3 = None" "g3' = g3"
        by (auto simp: synthesize_def split: option.splits)
      obtain vs where v: "traced X g3 (fst (generateFields X g3 (if key \<noteq> [] then key @ ''.'' else key) (fields' st))) vs"
        using "1.IH"[OF False r1[symmetric] _ r2[symmetric] _ r3[symmetric]] ok by auto
      have "parsed g3 = parsed g" "rootObjs g3 = rootObjs g" using fr by (auto simp: same_frame_def)
      from traced_trans[OF t v this]
      show ?thesis using False s None by (auto simp: generate_synthesize)
    qed
  qed
next
  case (2 X g key)
  show ?case using traced_refl by auto
next
  case (3 X g key field fs)
  show ?case
  proof (cases "customStruct g (childTyp field)")
    case None
    then show ?thesis using "3.IH"(1) by simp
  next
    case (Some child)
    obtain g1 e1 where r: "generate X g child (key @ jsonName X field) = (g1, e1)"
      by (cases "generate X g child (key @ jsonName X field)")
    obtain vs1 where v1: "traced X g g1 vs1" using "3.IH"(2)[OF Some] r by auto
    have gr: "grows g g1" using generate_grows[of g X child "key @ jsonName X field"] r by simp
    show ?thesis
    proof (cases e1)
      case None
      obtain vs2 where v2: "traced X g1 (fst (generateFields X g1 key fs)) vs2"
        using "3.IH"(3)[OF Some r[symmetric] None] by auto
      have "parsed g1 = parsed g" "rootObjs g1 = rootObjs g" using gr by (auto simp: grows_def)
      from traced_trans[OF v1 v2 this]
      show ?thesis using Some r None by auto
    next
      case (Some err)
      then show ?thesis using \<open>customStruct g (childTyp field) = Some child\<close> r v1 by auto
    qed
  qed
qed

lemma generateRootObjs_traced:
  "\<exists>visits. traced X g (fst (generateRootObjs X g rs)) visits"
proof (induction rs arbitrary: g)
  case Nil show ?case using traced_refl by auto
next
  case (Cons r rs)
  obtain g1 e1 where q: "generate X g r [] = (g1, e1)" by (cases "generate X g r []")
  obtain vs1 where v1: "traced X g g1 vs1" using generate_traced(1)[of X g r "[]"] q by auto
  have gr: "grows g g1" using generate_grows[of g X r "[]"] q by simp
  show ?case
  proof (cases e1)
    case None
    obtain vs2 where v2: "traced X g1 (fst (generateRootObjs X g1 rs)) vs2"
      using Cons.IH[of g1] by auto
    have "parsed g1 = parsed g" "rootObjs g1 = rootObjs g" using gr by (auto simp: grows_def)
    from traced_trans[OF v1 v2 this] show ?thesis using q None by auto
  next
    case (Some err)
    then show ?thesis using q v1 by auto
  qed
qed

lemma Generate_traced:
  "\<exists>visits. distinct (map (\<lambda>v. name (fst v)) visits)
     \<and> (\<forall>v\<in>set visits. name (fst v) \<notin> processedTypes g)
     \<and> processedTypes (fst (Generate X g)) = processedTypes g \<union> set (map (\<lambda>v. name (fst v)) visits)
     \<and> buf (fst (Generate X g)) =
         buf g @ preamble g @ concat (map (\<lambda>v. methodsText X g (fst v) (snd v)) visits)"
proof -
  let ?g3 = "g\<lparr>buf := buf g @ preamble g\<rparr>"
  obtain vs where v: "traced X ?g3 (fst (generateRootObjs X ?g3 (rootObjs g))) vs"
    using generateRootObjs_traced by blast
  have m: "methodsText X ?g3 = methodsText X g"
    by (intro ext) (rule methodsText_cong, simp_all)
  show ?thesis
    using v unfolding traced_def m Generate_unfold
    by (intro exI[of _ vs]) simp
qed

text \<open>
  C1: \<open>generate\<close> processes a type name at most once, and the traversal of any graph
  terminates.

  A call for a name that is already in \<open>processedTypes\<close> returns at once: no error,
  and the generator, so also the buffer, is unchanged. A call never removes a name from
  \<open>processedTypes\<close>, and when it returns the name of its type is in the set, also when
  it fails; a call for that name right afterwards, under whatever key, is such an
  immediate return.

  Over a whole call of \<open>generate\<close>, with everything it reaches through the fields,
  and over a whole run of \<open>Generate\<close>, with all its roots, no name is synthesized
  twice: there is a list of types with pairwise different names, none of them processed
  before, such that \<open>processedTypes\<close> gains exactly these names and the buffer gains
  exactly the texts of their methods, each once, in the order of the list (in a run,
  after the preamble).

  Every call lies in the domain of the recursion (the well-founded part of the call
  relation of \<open>generate\<close> and its loop over the fields), which holds for every graph,
  with shared references and with cycles: the recursion terminates.
\<close>

theorem generate_visits_once:
  "(name st \<in> processedTypes g \<longrightarrow> generate X g st key = (g, None))
   \<and> name st \<in> processedTypes (fst (generate X g st key))
   \<and> processedTypes g \<subseteq> processedTypes (fst (generate X g st key))
   \<and> generate X (fst (generate X g st key)) st key' = (fst (generate X g st key), None)
   \<and> generate_generateFields_dom (Inl (X, g, st, key))
   \<and> (\<exists>visits. distinct (map (\<lambda>v. name (fst v)) visits)
         \<and> (\<forall>v\<in>set visits. name (fst v) \<notin> processedTypes g)
         \<and> processedTypes (fst (generate X g st key)) =
             processedTypes g \<union> set (map (\<lambda>v. name (fst v)) visits)
         \<and> buf (fst (generate X g st key)) =
             buf g @ concat (map (\<lambda>v. methodsText X g (fst v) (snd v)) visits))
   \<and> (\<exists>visits. distinct (map (\<lambda>v. name (fst v)) visits)
         \<and> (\<forall>v\<in>set visits. name (fst v) \<notin> processedTypes g)
         \<and> processedTypes (fst (Generate X g)) =
             processedTypes g \<union> set (map (\<lambda>v. name (fst v)) visits)
         \<and> buf (fst (Generate X g)) =
             buf g @ preamble g @ concat (map (\<lambda>v. methodsText X g (fst v) (snd v)) visits))"
proof -
  have a: "name st \<in> processedTypes g \<longrightarrow> generate X g st key = (g, None)"
    by (simp add: generate.simps)
  have b: "name st \<in> processedTypes (fst (generate X g st key))"
    by (rule generate_marks)
  have c: "processedTypes g \<subseteq> processedTypes (fst (generate X g st key))"
    using generate_grows[of g X st key] by (simp add: grows_def)
  have d: "generate X (fst (generate X g st key)) st key' = (fst (generate X g st key), None)"
    using b by (simp add: generate.simps)
  have e: "generate_generateFields_dom (Inl (X, g, st, key))"
    using generate_all_dom by simp
  have f: "\<exists>visits. distinct (map (\<lambda>v. name (fst v)) visits)
         \<and> (\<forall>v\<in>set visits. name (fst v) \<notin> processedTypes g)
         \<and> processedTypes (fst (generate X g st key)) =
             processedTypes g \<union> set (map (\<lambda>v. name (fst v)) visits)
         \<and> buf (fst (generate X g st key)) =
             buf g @ concat (map (\<lambda>v. methodsText X g (fst v) (snd v)) visits)"
    using generate_traced(1)[of X g st key] by (simp add: traced_def)
  from a b c d e f Generate_traced[of g X] show ?thesis by blast
qed

theorem generate_visits_once_witness:
  "name tTag \<in> processedTypes (exGen\<lparr>processedTypes := {''Tag''}\<rparr>)
   \<and> generate stubExternals (exGen\<lparr>processedTypes := {''Tag''}\<rparr>) tTag ''tags''
       = (exGen\<lparr>processedTypes := {''Tag''}\<rparr>, None)
   \<and> processedTypes (fst (generate stubExternals exGen tRoot [])) = {''Root'', ''Tag''}
   \<and> snd (generate stubExternals exGen tRoot []) = None
   \<and> buf (fst (generate stubExternals exGen tRoot [])) =
       methodsText stubExternals exGen tRoot [] @ methodsText stubExternals exGen tTag ''tags''"
proof -
  have h: "name tTag \<in> processedTypes (exGen\<lparr>processedTypes := {''Tag''}\<rparr>)"
    by (simp add: tTag_def)
  have r: "processedTypes (fst (generate stubExternals exGen tRoot [])) = {''Root'', ''Tag''}"
    "snd (generate stubExternals exGen tRoot []) = None"
    by (simp_all add: ex_defs run_defs generate.simps insert_commute)
  have b: "buf (fst (generate stubExternals exGen tRoot [])) =
       methodsText stubExternals exGen tRoot [] @ methodsText stubExternals exGen tTag ''tags''"
    by (simp add: methodsText_def synthesize_def ex_defs run_defs generate.simps)
  show ?thesis
    using h r b generate_visits_once[of tTag "exGen\<lparr>processedTypes := {''Tag''}\<rparr>"
        stubExternals "''tags''" "[]"]
    by simp
qed

section \<open>Determinism\<close>

text \<open>
  The only place where a run could depend on something other than its inputs is the
  iteration over the Go map \<open>patternVariables\<close>, whose order is unspecified.
  \<open>withPatterns pv g\<close> is the generator \<open>g\<close> with the entries \<open>pv\<close> as its pattern
  variables: two lists with distinct keys and the same \<open>map_of\<close> are the same Go map,
  enumerated in two orders.
\<close>

definition withPatterns :: "(string \<times> string) list \<Rightarrow> CodeGenerator \<Rightarrow> CodeGenerator" where
  "withPatterns pv g = g\<lparr>parsed := (parsed g)\<lparr>patternVariables := pv\<rparr>\<rparr>"

lemma transparent_withPatterns: "transparent (withPatterns pv)"
  by (simp add: transparent_def withPatterns_def Fprint_def)

lemma wp_customStruct: "customStruct (withPatterns pv g) t = customStruct g t"
  by (rule tr_customStruct[OF transparent_withPatterns])

lemma wp_generateIsSet:
  "generateIsSet X (withPatterns pv g) st key = onFst (withPatterns pv) (generateIsSet X g st key)"
  by (rule tr_generateIsSet[OF transparent_withPatterns])

lemma wp_generateReset:
  "generateReset X (withPatterns pv g) st key = onFst (withPatterns pv) (generateReset X g st key)"
  by (rule tr_generateReset[OF transparent_withPatterns])

lemma wp_generateValidation:
  "generateValidation X (withPatterns pv g) st key =
     onFst (withPatterns pv) (generateValidation X g st key)"
  by (rule tr_generateValidation[OF transparent_withPatterns])

lemma wp_generate:
  "generate X (withPatterns pv g) st key = onFst (withPatterns pv) (generate X g st key)"
  "generateFields X (withPatterns pv g) key fs = onFst (withPatterns pv) (generateFields X g key fs)"
proof (induction X g st key and X g key fs rule: generate_generateFields.induct)
  case (1 X g st key)
  let ?g0 = "g\<lparr>processedTypes := insert (name st) (processedTypes g)\<rparr>"
  have p: "processedTypes (withPatterns pv g) = processedTypes g" by (simp add: withPatterns_def)
  show ?case
  proof (cases "name st \<in> processedTypes g")
    case True
    then show ?thesis by (simp add: generate.simps p onFst_def)
  next
    case False
    obtain g1 e1 where r1: "generateIsSet X ?g0 st key = (g1, e1)" by (cases "generateIsSet X ?g0 st key")
    obtain g2 e2 where r2: "generateReset X g1 st key = (g2, e2)" by (cases "generateReset X g1 st key")
    obtain g3 e3 where r3: "generateValidation X g2 st key = (g3, e3)"
      by (cases "generateValidation X g2 st key")
    have w1: "generateIsSet X (withPatterns pv ?g0) st key = (withPatterns pv g1, e1)"
      by (simp add: wp_generateIsSet r1 onFst_def)
    have w2: "generateReset X (withPatterns pv g1) st key = (withPatterns pv g2, e2)"
      by (simp add: wp_generateReset r2 onFst_def)
    have w3: "generateValidation X (withPatterns pv g2) st key = (withPatterns pv g3, e3)"
      by (simp add: wp_generateValidation r3 onFst_def)
    have m: "(withPatterns pv g)\<lparr>processedTypes := insert (name st) (processedTypes g)\<rparr>
               = withPatterns pv ?g0"
      by (simp add: withPatterns_def)
    have L: "generate X (withPatterns pv g) st key =
       (case e1 of Some err \<Rightarrow> (withPatterns pv g1, Some err) | None \<Rightarrow>
        (case e2 of Some err \<Rightarrow> (withPatterns pv g2, Some err) | None \<Rightarrow>
        (case e3 of Some err \<Rightarrow> (withPatterns pv g3, Some err) | None \<Rightarrow>
           generateFields X (withPatterns pv g3) (if key \<noteq> [] then key @ ''.'' else key) (fields' st))))"
      using False
      by (subst generate.simps) (simp add: p m w1 w2 w3 split: option.splits)
    have R: "generate X g st key =
       (case e1 of Some err \<Rightarrow> (g1, Some err) | None \<Rightarrow>
        (case e2 of Some err \<Rightarrow> (g2, Some err) | None \<Rightarrow>
        (case e3 of Some err \<Rightarrow> (g3, Some err) | None \<Rightarrow>
           generateFields X g3 (if key \<noteq> [] then key @ ''.'' else key) (fields' st))))"
      using False
      by (subst generate.simps) (simp add: r1 r2 r3 split: option.splits)
    show ?thesis
    proof (cases "e1 = None \<and> e2 = None \<and> e3 = None")
      case True
      then have "generateFields X (withPatterns pv g3) (if key \<noteq> [] then key @ ''.'' else key) (fields' st)
        = onFst (withPatterns pv) (generateFields X g3 (if key \<noteq> [] then key @ ''.'' else key) (fields' st))"
        using "1.IH"[OF False r1[symmetric] _ r2[symmetric] _ r3[symmetric]] by simp
      then show ?thesis using True by (simp add: L R)
    next
      case False
      then show ?thesis by (auto simp: L R onFst_def split: option.splits)
    qed
  qed
next
  case (2 X g key)
  show ?case by (simp add: onFst_def)
next
  case (3 X g key field fs)
  show ?case
  proof (cases "customStruct g (childTyp field)")
    case None
    then show ?thesis using "3.IH"(1) by (simp add: wp_customStruct)
  next
    case (Some child)
    obtain g1 e1 where r: "generate X g child (key @ jsonName X field) = (g1, e1)"
      by (cases "generate X g child (key @ jsonName X field)")
    have w: "generate X (withPatterns pv g) child (key @ jsonName X field) = (withPatterns pv g1, e1)"
      using "3.IH"(2)[OF Some] r by (simp add: onFst_def)
    show ?thesis
    proof (cases e1)
      case None
      then show ?thesis using Some r w "3.IH"(3)[OF Some r[symmetric] None]
        by (simp add: wp_customStruct)
    next
      case (Some e)
      then show ?thesis using \<open>customStruct g (childTyp field) = Some child\<close> r w
        by (simp add: wp_customStruct onFst_def)
    qed
  qed
qed

lemma wp_generateRootObjs:
  "generateRootObjs X (withPatterns pv g) rs = onFst (withPatterns pv) (generateRootObjs X g rs)"
proof (induction rs arbitrary: g)
  case Nil show ?case by (simp add: onFst_def)
next
  case (Cons r rs)
  show ?case
    by (cases "generate X g r []"; cases "snd (generate X g r [])")
       (auto simp: wp_generate(1) onFst_def Cons.IH)
qed

lemma sortKeys_same_map:
  assumes "distinct (map fst pv1)" and "distinct (map fst pv2)" and "map_of pv1 = map_of pv2"
  shows "sortKeys pv1 = sortKeys pv2"
proof -
  have "set (map fst pv1) = dom (map_of pv1)" by (simp add: dom_map_of_conv_image_fst)
  also have "\<dots> = dom (map_of pv2)" using assms(3) by simp
  also have "\<dots> = set (map fst pv2)" by (simp add: dom_map_of_conv_image_fst)
  finally have "set (map fst pv1) = set (map fst pv2)" .
  then have "mset (map fst pv1) = mset (map fst pv2)"
    using set_eq_iff_mset_eq_distinct[OF assms(1) assms(2)] by blast
  then have "mset (sort (map fst pv2)) = mset (map fst pv1)" by simp
  then have "sort (map fst pv1) = sort (map fst pv2)"
    by (rule properties_for_sort) simp
  then show ?thesis by (simp add: sortKeys_def)
qed

lemma Generate_withPatterns:
  "Generate X (withPatterns pv g) =
     onFst (withPatterns pv)
       (generateRootObjs X
          (g\<lparr>buf := buf g @ fileHeader (pkgName (parsed g))
               @ concat (map patternDecl (sortKeys pv)) @ '')'' @ [nl]\<rparr>)
          (rootObjs g))"
proof -
  have "(withPatterns pv g)\<lparr>buf := buf (withPatterns pv g) @ preamble (withPatterns pv g)\<rparr>
        = withPatterns pv (g\<lparr>buf := buf g @ fileHeader (pkgName (parsed g))
               @ concat (map patternDecl (sortKeys pv)) @ '')'' @ [nl]\<rparr>)"
    by (simp add: withPatterns_def preamble_def)
  moreover have "rootObjs (withPatterns pv g) = rootObjs g" by (simp add: withPatterns_def)
  ultimately show ?thesis
    by (simp only: Generate_unfold wp_generateRootObjs)
qed

text \<open>
  C2: two runs of \<open>Generate\<close> on the same generator (same struct types, roots and
  package name) and the same map of pattern variables, in whatever order the map is
  enumerated in each run, return the same buffer and the same error. The declarations
  of the pattern variables stand in the header, after the file header, one for each key,
  in the order of \<open>sortKeys\<close>, which is sorted in the lexicographic order of the
  strings (bytewise, a proper prefix first).
\<close>

theorem Generate_deterministic:
  assumes "distinct (map fst pv1)" and "distinct (map fst pv2)" and "map_of pv1 = map_of pv2"
  shows "buf (fst (Generate X (withPatterns pv1 g))) = buf (fst (Generate X (withPatterns pv2 g)))
     \<and> snd (Generate X (withPatterns pv1 g)) = snd (Generate X (withPatterns pv2 g))
     \<and> sorted (sortKeys pv1) \<and> mset (sortKeys pv1) = mset (map fst pv1)
     \<and> (\<exists>out. buf (fst (Generate X (withPatterns pv1 g))) =
            buf g @ fileHeader (pkgName (parsed g))
            @ concat (map patternDecl (sortKeys pv1)) @ '')'' @ [nl] @ out)"
proof -
  let ?start = "\<lambda>pv. g\<lparr>buf := buf g @ fileHeader (pkgName (parsed g))
               @ concat (map patternDecl (sortKeys pv)) @ '')'' @ [nl]\<rparr>"
  have k: "sortKeys pv1 = sortKeys pv2" using assms by (rule sortKeys_same_map)
  have b: "buf (fst (Generate X (withPatterns pv g))) =
             buf (fst (generateRootObjs X (?start pv) (rootObjs g)))" for pv
    unfolding Generate_withPatterns by (simp add: onFst_def withPatterns_def)
  have e: "snd (Generate X (withPatterns pv g)) =
             snd (generateRootObjs X (?start pv) (rootObjs g))" for pv
    unfolding Generate_withPatterns by (simp add: onFst_def)
  have "grows (?start pv1) (fst (generateRootObjs X (?start pv1) (rootObjs g)))"
    by (rule generateRootObjs_grows)
  then obtain out where "buf (fst (generateRootObjs X (?start pv1) (rootObjs g))) =
      buf (?start pv1) @ out"
    by (auto simp: grows_def)
  then have "\<exists>out. buf (fst (Generate X (withPatterns pv1 g))) =
            buf g @ fileHeader (pkgName (parsed g))
            @ concat (map patternDecl (sortKeys pv1)) @ '')'' @ [nl] @ out"
    by (simp add: b)
  moreover have "buf (fst (Generate X (withPatterns pv1 g))) = buf (fst (Generate X (withPatterns pv2 g)))"
    by (simp add: b k)
  moreover have "snd (Generate X (withPatterns pv1 g)) = snd (Generate X (withPatterns pv2 g))"
    by (simp add: e k)
  moreover have "sorted (sortKeys pv1)" "mset (sortKeys pv1) = mset (map fst pv1)"
    by (simp_all add: sortKeys_def)
  ultimately show ?thesis by blast
qed

theorem Generate_deterministic_witness:
  "distinct (map fst [(''b'', ''[0-9]+''), (''a'', ''[a-z]+'')])
   \<and> distinct (map fst [(''a'', ''[a-z]+''), (''b'', ''[0-9]+'')])
   \<and> map_of [(''b'', ''[0-9]+''), (''a'', ''[a-z]+'')] = map_of [(''a'', ''[a-z]+''), (''b'', ''[0-9]+'')]
   \<and> sortKeys [(''b'', ''[0-9]+''), (''a'', ''[a-z]+'')] = [''a'', ''b'']
   \<and> buf (fst (Generate stubExternals (withPatterns [(''b'', ''[0-9]+''), (''a'', ''[a-z]+'')] exGen)))
       = buf (fst (Generate stubExternals (withPatterns [(''a'', ''[a-z]+''), (''b'', ''[0-9]+'')] exGen)))
   \<and> snd (Generate stubExternals (withPatterns [(''b'', ''[0-9]+''), (''a'', ''[a-z]+'')] exGen))
       = snd (Generate stubExternals (withPatterns [(''a'', ''[a-z]+''), (''b'', ''[0-9]+'')] exGen))"
proof -
  have h1: "distinct (map fst [(''b'', ''[0-9]+''), (''a'', ''[a-z]+'')])" by simp
  have h2: "distinct (map fst [(''a'', ''[a-z]+''), (''b'', ''[0-9]+'')])" by simp
  have h3: "map_of [(''b'', ''[0-9]+''), (''a'', ''[a-z]+'')]
              = map_of [(''a'', ''[a-z]+''), (''b'', ''[0-9]+'')]"
    by (rule ext) simp
  have s: "sortKeys [(''b'', ''[0-9]+''), (''a'', ''[a-z]+'')] = [''a'', ''b'']"
    by (simp add: sortKeys_def)
  show ?thesis
    using h1 h2 h3 s Generate_deterministic[OF h1 h2 h3, of stubExternals exGen]
    by simp
qed

end
